theory Spec2Isabelle
  imports Main "HOL-Library.Sublist" "HOL-Library.Multiset" "HOL-Library.AList"
    "HOL-Library.Code_Target_Nat"
begin

section \<open>JavaScript strings\<close>

text \<open>
  A JavaScript string is modelled as a \<^typ>\<open>string\<close>: one \<^typ>\<open>char\<close> is one UTF-16 code
  unit, so the strings of the model are the JavaScript strings whose code units are below
  256. \<open>toLowerCase\<close> and \<open>toUpperCase\<close> change the ASCII letters only, as JavaScript does on
  ASCII strings.
\<close>

definition code :: "char \<Rightarrow> nat" where
  "code c = of_char c"

definition isUpper :: "char \<Rightarrow> bool" where
  "isUpper c = (65 \<le> code c \<and> code c \<le> 90)"

definition isLower :: "char \<Rightarrow> bool" where
  "isLower c = (97 \<le> code c \<and> code c \<le> 122)"

definition isDigit :: "char \<Rightarrow> bool" where
  "isDigit c = (48 \<le> code c \<and> code c \<le> 57)"

definition isAlpha :: "char \<Rightarrow> bool" where
  "isAlpha c = (isUpper c \<or> isLower c)"

definition lowerChar :: "char \<Rightarrow> char" where
  "lowerChar c = (if isUpper c then char_of (code c + 32) else c)"

definition upperChar :: "char \<Rightarrow> char" where
  "upperChar c = (if isLower c then char_of (code c - 32) else c)"

definition toLowerCase :: "string \<Rightarrow> string" where
  "toLowerCase s = map lowerChar s"

definition toUpperCase :: "string \<Rightarrow> string" where
  "toUpperCase s = map upperChar s"

text \<open>\<open>s.startsWith(p)\<close>\<close>

fun startsWith :: "string \<Rightarrow> string \<Rightarrow> bool" where
  "startsWith s [] = True"
| "startsWith [] (p # ps) = False"
| "startsWith (c # cs) (p # ps) = (c = p \<and> startsWith cs ps)"

text \<open>\<open>s.includes(p)\<close>\<close>

fun includesStr :: "string \<Rightarrow> string \<Rightarrow> bool" where
  "includesStr [] p = (p = [])"
| "includesStr (c # cs) p = (startsWith (c # cs) p \<or> includesStr cs p)"

text \<open>\<open>s.split('#')[0]\<close>: the text before the first \<open>#\<close>, the whole string when there is none.\<close>

definition beforeHash :: "string \<Rightarrow> string" where
  "beforeHash s = takeWhile (\<lambda>c. c \<noteq> CHR ''#'') s"

text \<open>\<open>a || d\<close> on an attribute that is \<open>undefined\<close> when absent: the empty string is falsy too.\<close>

definition orElse :: "string option \<Rightarrow> string \<Rightarrow> string" where
  "orElse a d = (case a of None \<Rightarrow> d | Some s \<Rightarrow> if s = [] then d else s)"

text \<open>\<open>set.add(x)\<close> on a JavaScript \<open>Set\<close>, which keeps insertion order and no duplicates.\<close>

definition setAdd :: "'a list \<Rightarrow> 'a \<Rightarrow> 'a list" where
  "setAdd xs x = (if x \<in> set xs then xs else xs @ [x])"

definition setAddAll :: "'a list \<Rightarrow> 'a list \<Rightarrow> 'a list" where
  "setAddAll xs ys = foldl setAdd xs ys"

section \<open>The URL class\<close>

text \<open>
  \<open>new URL(input, base)\<close> is Node's implementation of the WHATWG URL standard. The crawler
  uses its constructor (which throws a \<open>TypeError\<close> on failure, here \<open>None\<close>), \<open>toString()\<close>,
  \<open>origin\<close> and \<open>pathname\<close>. The model follows the parser of the standard state by state:
  input preparation, scheme detection, special schemes and default ports, the relative and
  the \<open>file\<close> states with the drive letter quirks, credentials, hosts (percent-decoding,
  forbidden code points, IPv4 and IPv6 addresses with their canonical serialization,
  opaque hosts), ports, dot segments, and the percent-encode sets of path, query, fragment
  and userinfo, with UTF-8 encoding of the code units from 128 to 255.

  One part of the standard is not modelled: domain-to-ASCII of a host that is not plain
  ASCII. For an ASCII domain none of whose labels starts with \<open>xn--\<close> the standard says
  that the operation is ASCII lower-casing, and the model does that. For the other domains
  (\<open>needsUnicode\<close>) it needs the tables of Unicode IDNA processing; for these the model has
  \<open>None\<close>, whether Node accepts the host or not. The theorems below use the parser only
  where it succeeds.

  Where releases of the standard differ, the model follows the current text: \<open>^\<close> is in the
  path percent-encode set, and a space right before the query or the fragment of an opaque
  path is encoded. Releases of Node from before these changes leave both as they are.
\<close>

record URL =
  scheme :: string
  username :: string
  password :: string
  host :: "string option"
  port :: "nat option"
  path :: "string list"
  opaque :: bool
  query :: "string option"
  fragment :: "string option"

definition defaultPort :: "string \<Rightarrow> nat option" where
  "defaultPort s =
     (if s = ''http'' \<or> s = ''ws'' then Some 80
      else if s = ''https'' \<or> s = ''wss'' then Some 443
      else if s = ''ftp'' then Some 21
      else None)"

text \<open>The special schemes: \<open>file\<close> and the schemes with a default port. The latter are the
  schemes whose URLs have a tuple origin.\<close>

definition isSpecial :: "string \<Rightarrow> bool" where
  "isSpecial s = (s = ''file'' \<or> defaultPort s \<noteq> None)"

definition tupleOrigin :: "string \<Rightarrow> bool" where
  "tupleOrigin s = (defaultPort s \<noteq> None)"

definition digitChar :: "nat \<Rightarrow> char" where
  "digitChar n = char_of (48 + n)"

fun showNat :: "nat \<Rightarrow> string" where
  "showNat n = (if n < 10 then [digitChar n] else showNat (n div 10) @ [digitChar (n mod 10)])"

declare showNat.simps [simp del]

definition hexChar :: "nat \<Rightarrow> char" where
  "hexChar n = (if n < 10 then char_of (48 + n) else char_of (55 + n))"

text \<open>UTF-8 percent-encoding of the code points in a percent-encode set.\<close>

definition utf8 :: "char \<Rightarrow> nat list" where
  "utf8 c = (if code c < 128 then [code c] else [192 + code c div 64, 128 + code c mod 64])"

definition percentByte :: "nat \<Rightarrow> string" where
  "percentByte n = [CHR ''%'', hexChar (n div 16), hexChar (n mod 16)]"

definition percentEncode :: "(char \<Rightarrow> bool) \<Rightarrow> string \<Rightarrow> string" where
  "percentEncode inSet s =
     concat (map (\<lambda>c. if inSet c then concat (map percentByte (utf8 c)) else [c]) s)"

definition c0OrBeyond :: "char \<Rightarrow> bool" where
  "c0OrBeyond c = (code c < 32 \<or> 126 < code c)"

definition fragmentSet :: "char \<Rightarrow> bool" where
  "fragmentSet c = (c0OrBeyond c \<or> code c \<in> {32, 34, 60, 62, 96})"

definition querySet :: "bool \<Rightarrow> char \<Rightarrow> bool" where
  "querySet special c =
     (c0OrBeyond c \<or> code c \<in> {32, 34, 35, 60, 62} \<or> (special \<and> code c = 39))"

definition pathSet :: "char \<Rightarrow> bool" where
  "pathSet c = (querySet False c \<or> code c \<in> {63, 94, 96, 123, 125})"

definition userinfoSet :: "char \<Rightarrow> bool" where
  "userinfoSet c = (pathSet c \<or> code c \<in> {47, 58, 59, 61, 64, 91, 92, 93, 124})"

definition forbiddenHost :: "char \<Rightarrow> bool" where
  "forbiddenHost c =
     (code c \<in> {0, 9, 10, 13, 32, 35, 47, 58, 60, 62, 63, 64, 91, 92, 93, 94, 124})"

definition forbiddenDomain :: "char \<Rightarrow> bool" where
  "forbiddenDomain c = (forbiddenHost c \<or> code c \<le> 31 \<or> code c = 37 \<or> 127 \<le> code c)"

text \<open>Input preparation: strip leading and trailing C0 controls and spaces, remove tabs and
  newlines.\<close>

definition c0OrSpace :: "char \<Rightarrow> bool" where
  "c0OrSpace c = (code c \<le> 32)"

definition tabOrNewline :: "char \<Rightarrow> bool" where
  "tabOrNewline c = (code c = 9 \<or> code c = 10 \<or> code c = 13)"

definition prepare :: "string \<Rightarrow> string" where
  "prepare s = filter (\<lambda>c. \<not> tabOrNewline c)
     (rev (dropWhile c0OrSpace (rev (dropWhile c0OrSpace s))))"

text \<open>Splitting at the first character that satisfies a predicate: the text before it, and
  the rest after it when there is one.\<close>

definition splitFirst :: "(char \<Rightarrow> bool) \<Rightarrow> string \<Rightarrow> string \<times> string option" where
  "splitFirst p s = (takeWhile (\<lambda>c. \<not> p c) s,
     (case dropWhile (\<lambda>c. \<not> p c) s of [] \<Rightarrow> None | _ # r \<Rightarrow> Some r))"

text \<open>Splitting at the last character that satisfies a predicate.\<close>

definition splitLast :: "(char \<Rightarrow> bool) \<Rightarrow> string \<Rightarrow> string option \<times> string" where
  "splitLast p s = (case splitFirst p (rev s) of (a, b) \<Rightarrow> (map_option rev b, rev a))"

text \<open>Strict splitting at every character that satisfies a predicate.\<close>

fun splitAll :: "(char \<Rightarrow> bool) \<Rightarrow> string \<Rightarrow> string list" where
  "splitAll p [] = [[]]"
| "splitAll p (c # cs) =
     (if p c then [] # splitAll p cs
      else (case splitAll p cs of [] \<Rightarrow> [[c]] | w # ws \<Rightarrow> (c # w) # ws))"

definition isSlash :: "bool \<Rightarrow> char \<Rightarrow> bool" where
  "isSlash special c = (c = CHR ''/'' \<or> (special \<and> c = CHR 0x5C))"

definition isDot :: "char \<Rightarrow> bool" where
  "isDot c = (c = CHR ''.'')"

text \<open>The scheme of an input: a letter, then letters, digits, \<open>+\<close>, \<open>-\<close>, \<open>.\<close>, then a colon.\<close>

definition schemeChar :: "char \<Rightarrow> bool" where
  "schemeChar c = (isAlpha c \<or> isDigit c \<or> c \<in> set ''+-.'')"

definition splitScheme :: "string \<Rightarrow> (string \<times> string) option" where
  "splitScheme s =
     (case s of [] \<Rightarrow> None
      | c # _ \<Rightarrow>
          if isAlpha c then
            (case dropWhile schemeChar s of
               [] \<Rightarrow> None
             | d # r \<Rightarrow> if d = CHR '':'' then Some (toLowerCase (takeWhile schemeChar s), r) else None)
          else None)"

section \<open>Hosts\<close>

text \<open>Numbers in the radix of an IPv4 part or an IPv6 piece.\<close>

definition hexVal :: "char \<Rightarrow> nat option" where
  "hexVal c =
     (if isDigit c then Some (code c - 48)
      else if 97 \<le> code c \<and> code c \<le> 102 then Some (code c - 87)
      else if 65 \<le> code c \<and> code c \<le> 70 then Some (code c - 55)
      else None)"

fun readRadix :: "nat \<Rightarrow> nat \<Rightarrow> string \<Rightarrow> nat option" where
  "readRadix r acc [] = Some acc"
| "readRadix r acc (c # cs) =
     (case hexVal c of
        None \<Rightarrow> None
      | Some d \<Rightarrow> if d < r then readRadix r (r * acc + d) cs else None)"

fun readNat :: "nat \<Rightarrow> string \<Rightarrow> nat" where
  "readNat acc [] = acc"
| "readNat acc (c # cs) = readNat (10 * acc + (code c - 48)) cs"

text \<open>The IPv4 number parser: \<open>0x\<close> announces hexadecimal and a leading \<open>0\<close> octal digits.\<close>

definition ipv4Number :: "string \<Rightarrow> nat option" where
  "ipv4Number s =
     (if s = [] then None
      else if 2 \<le> length s \<and> (startsWith s ''0x'' \<or> startsWith s ''0X'') then readRadix 16 0 (drop 2 s)
      else if 2 \<le> length s \<and> hd s = CHR ''0'' then readRadix 8 0 (tl s)
      else readRadix 10 0 s)"

text \<open>The parts between the dots, without one empty last part.\<close>

definition dotParts :: "string \<Rightarrow> string list" where
  "dotParts s = (let ps = splitAll isDot s in if last ps = [] \<and> 1 < length ps then butlast ps else ps)"

definition endsInNumber :: "string \<Rightarrow> bool" where
  "endsInNumber s =
     (let l = last (dotParts s) in (l \<noteq> [] \<and> list_all isDigit l) \<or> ipv4Number l \<noteq> None)"

definition ipv4Parse :: "string \<Rightarrow> nat option" where
  "ipv4Parse s =
     (let ps = dotParts s; ns = map ipv4Number ps in
      if 4 < length ps \<or> None \<in> set ns then None
      else let numbers = map the ns in
        if list_ex (\<lambda>n. 255 < n) (butlast numbers) \<or> 256 ^ (5 - length numbers) \<le> last numbers then None
        else Some (last numbers
               + sum_list (map (\<lambda>(n, i). n * 256 ^ (3 - i)) (zip (butlast numbers) [0..<3]))))"

definition joinWith :: "string \<Rightarrow> string list \<Rightarrow> string" where
  "joinWith sep xs = (case xs of [] \<Rightarrow> [] | x # r \<Rightarrow> x @ concat (map (\<lambda>y. sep @ y) r))"

definition ipv4Serialize :: "nat \<Rightarrow> string" where
  "ipv4Serialize n =
     joinWith ''.'' (map showNat [n div 16777216, n div 65536 mod 256, n div 256 mod 256, n mod 256])"

text \<open>
  The IPv6 parser. \<open>readHex\<close> reads up to four hexadecimal digits: their value, how many
  there were, and the rest. \<open>ipv6Pieces\<close> is the main loop with the pieces read so far
  (\<open>pieceIndex\<close> is their number; the piece that \<open>::\<close> skips is a zero) and \<open>compress\<close>.
\<close>

definition readHex :: "string \<Rightarrow> nat \<times> nat \<times> string" where
  "readHex s =
     (let digits = takeWhile (\<lambda>c. hexVal c \<noteq> None) (take 4 s)
      in (foldl (\<lambda>v c. 16 * v + the (hexVal c)) 0 digits, length digits, drop (length digits) s))"

definition ipv4Piece :: "string \<Rightarrow> bool" where
  "ipv4Piece p \<longleftrightarrow> p \<noteq> [] \<and> list_all isDigit p \<and> (length p = 1 \<or> hd p \<noteq> CHR ''0'') \<and> readNat 0 p \<le> 255"

definition ipv4InIPv6 :: "string \<Rightarrow> nat list option" where
  "ipv4InIPv6 s =
     (let ps = splitAll isDot s in
      if length ps = 4 \<and> list_all ipv4Piece ps
      then Some [readNat 0 (ps ! 0) * 256 + readNat 0 (ps ! 1), readNat 0 (ps ! 2) * 256 + readNat 0 (ps ! 3)]
      else None)"

function ipv6Pieces :: "nat list \<Rightarrow> nat option \<Rightarrow> string \<Rightarrow> (nat list \<times> nat option) option" where
  "ipv6Pieces ps compress s =
     (case s of
        [] \<Rightarrow> Some (ps, compress)
      | c # cs \<Rightarrow>
          if length ps = 8 then None
          else if c = CHR '':'' then
            (if compress \<noteq> None then None else ipv6Pieces (ps @ [0]) (Some (length ps + 1)) cs)
          else
            (case readHex s of
               (v, l, rest) \<Rightarrow>
                 (case rest of
                    [] \<Rightarrow> Some (ps @ [v], compress)
                  | d # ds \<Rightarrow>
                      if d = CHR ''.'' then
                        (if l = 0 \<or> 6 < length ps then None
                         else map_option (\<lambda>two. (ps @ two, compress)) (ipv4InIPv6 s))
                      else if d = CHR '':'' then
                        (if ds = [] then None else ipv6Pieces (ps @ [v]) compress ds)
                      else None)))"
  by pat_completeness auto
termination
proof -
  have len: "readHex t = (v, l, r) \<Longrightarrow> length r \<le> length t" for t v l r
    by (auto simp: readHex_def Let_def)
  show ?thesis
    by (relation "measure (\<lambda>(ps, compress, s). length s)") (auto dest!: len[OF sym])
qed

declare ipv6Pieces.simps [simp del]

definition ipv6Parse :: "string \<Rightarrow> nat list option" where
  "ipv6Parse s =
     (case (if startsWith s ''::'' then ipv6Pieces [0] (Some 1) (drop 2 s)
            else if startsWith s '':'' then None
            else ipv6Pieces [] None s) of
        None \<Rightarrow> None
      | Some (ps, None) \<Rightarrow> if length ps = 8 then Some ps else None
      | Some (ps, Some k) \<Rightarrow> Some (take k ps @ replicate (8 - length ps) 0 @ drop k ps))"

text \<open>The IPv6 serializer compresses the first longest run of two or more zero pieces.\<close>

definition zeroRun :: "nat list \<Rightarrow> nat" where
  "zeroRun ps = length (takeWhile (\<lambda>p. p = 0) ps)"

definition findCompress :: "nat list \<Rightarrow> nat option" where
  "findCompress ps =
     (case foldl (\<lambda>(best, len) i. if len < zeroRun (drop i ps) then (i, zeroRun (drop i ps)) else (best, len))
                 (0, 1) [0..<length ps] of
        (best, len) \<Rightarrow> if 1 < len then Some best else None)"

fun showHex :: "nat \<Rightarrow> string" where
  "showHex n = (if n < 16 then [lowerChar (hexChar n)] else showHex (n div 16) @ [lowerChar (hexChar (n mod 16))])"

declare showHex.simps [simp del]

definition ipv6Serialize :: "nat list \<Rightarrow> string" where
  "ipv6Serialize ps =
     (case findCompress ps of
        None \<Rightarrow> joinWith '':'' (map showHex ps)
      | Some k \<Rightarrow> joinWith '':'' (map showHex (take k ps)) @ ''::''
                  @ joinWith '':'' (map showHex (drop (k + zeroRun (drop k ps)) ps)))"

text \<open>Percent-decoding gives bytes; the bytes of a character that is not ASCII are those of
  its UTF-8 encoding.\<close>

fun percentDecode :: "string \<Rightarrow> nat list" where
  "percentDecode (c # h # l # r) =
     (if c = CHR ''%'' \<and> hexVal h \<noteq> None \<and> hexVal l \<noteq> None
      then (16 * the (hexVal h) + the (hexVal l)) # percentDecode r
      else utf8 c @ percentDecode (h # l # r))"
| "percentDecode (c # r) = utf8 c @ percentDecode r"
| "percentDecode [] = []"

text \<open>The domains for which domain-to-ASCII is more than ASCII lower-casing.\<close>

definition needsUnicode :: "nat list \<Rightarrow> bool" where
  "needsUnicode bytes \<longleftrightarrow>
     list_ex (\<lambda>b. 128 \<le> b) bytes
     \<or> list_ex (\<lambda>label. startsWith (toLowerCase label) ''xn--'') (splitAll isDot (map char_of bytes))"

text \<open>
  The host parser; \<open>special\<close> is the negation of the standard's \<open>isOpaque\<close>. An address in
  brackets is an IPv6 address. A host that is not special is an opaque host. Otherwise the
  host is a domain: percent-decoded, lower-cased, checked for forbidden code points, and
  an IPv4 address when its last part is a number.
\<close>

definition parseHost :: "bool \<Rightarrow> string \<Rightarrow> string option" where
  "parseHost special h =
     (if startsWith h ''['' then
        (if last h \<noteq> CHR '']'' then None
         else map_option (\<lambda>ps. ''['' @ ipv6Serialize ps @ '']'') (ipv6Parse (butlast (tl h))))
      else if \<not> special then
        (if list_ex forbiddenHost h then None else Some (percentEncode c0OrBeyond h))
      else
        (let bytes = percentDecode h; domain = toLowerCase (map char_of bytes) in
         if needsUnicode bytes \<or> domain = [] \<or> list_ex forbiddenDomain domain then None
         else if endsInNumber domain then map_option ipv4Serialize (ipv4Parse domain)
         else Some domain))"

section \<open>The parser\<close>

text \<open>The port: digits only, at most 65535, dropped when it is the scheme's default.\<close>

definition parsePort :: "string \<Rightarrow> string \<Rightarrow> nat option option" where
  "parsePort sch p =
     (if p = [] then Some None
      else if \<not> list_all isDigit p then None
      else let n = readNat 0 p in
        if 65535 < n then None
        else if defaultPort sch = Some n then Some None else Some (Some n))"

text \<open>The host state ends the host at the first colon that is not inside brackets.\<close>

fun splitHostPort :: "bool \<Rightarrow> string \<Rightarrow> string \<times> string option" where
  "splitHostPort inside [] = ([], None)"
| "splitHostPort inside (c # cs) =
     (if c = CHR '':'' \<and> \<not> inside then ([], Some cs)
      else (case splitHostPort (if c = CHR ''['' then True else if c = CHR '']'' then False else inside) cs of
              (h, p) \<Rightarrow> (c # h, p)))"

text \<open>Windows drive letters of the \<open>file\<close> states.\<close>

definition driveLetter :: "string \<Rightarrow> bool" where
  "driveLetter s \<longleftrightarrow> length s = 2 \<and> isAlpha (s ! 0) \<and> (s ! 1 = CHR '':'' \<or> s ! 1 = CHR ''|'')"

definition normalizedDriveLetter :: "string \<Rightarrow> bool" where
  "normalizedDriveLetter s \<longleftrightarrow> length s = 2 \<and> isAlpha (s ! 0) \<and> s ! 1 = CHR '':''"

definition startsWithDriveLetter :: "string \<Rightarrow> bool" where
  "startsWithDriveLetter s \<longleftrightarrow>
     2 \<le> length s \<and> driveLetter (take 2 s)
     \<and> (length s = 2 \<or> s ! 2 = CHR ''/'' \<or> s ! 2 = CHR 0x5C \<or> s ! 2 = CHR ''?'')"

text \<open>The path state. A path segment ends at a slash; \<open>pathSegments\<close> takes the segments
  of the input, the last of which ends at the query or at the end of the input.\<close>

definition singleDot :: "string \<Rightarrow> bool" where
  "singleDot seg = (seg = ''.'' \<or> toLowerCase seg = ''%2e'')"

definition doubleDot :: "string \<Rightarrow> bool" where
  "doubleDot seg = (seg = ''..'' \<or> toLowerCase seg \<in> {''.%2e'', ''%2e.'', ''%2e%2e''})"

definition shorten :: "string \<Rightarrow> string list \<Rightarrow> string list" where
  "shorten sch p =
     (if sch = ''file'' \<and> length p = 1 \<and> normalizedDriveLetter (hd p) then p else butlast p)"

definition pushSegment :: "string \<Rightarrow> string list \<Rightarrow> string \<Rightarrow> string list" where
  "pushSegment sch p seg =
     p @ [if sch = ''file'' \<and> p = [] \<and> driveLetter seg then [hd seg, CHR '':''] else seg]"

fun pathSegments :: "string \<Rightarrow> string list \<Rightarrow> string list \<Rightarrow> string list" where
  "pathSegments sch acc [] = acc"
| "pathSegments sch acc [seg] =
     (if doubleDot seg then shorten sch acc @ [[]]
      else if singleDot seg then acc @ [[]]
      else pushSegment sch acc (percentEncode pathSet seg))"
| "pathSegments sch acc (seg # segs) =
     (if doubleDot seg then pathSegments sch (shorten sch acc) segs
      else if singleDot seg then pathSegments sch acc segs
      else pathSegments sch (pushSegment sch acc (percentEncode pathSet seg)) segs)"

definition parsePath :: "string \<Rightarrow> string list \<Rightarrow> string \<Rightarrow> string list" where
  "parsePath sch acc s = pathSegments sch acc (splitAll (isSlash (isSpecial sch)) s)"

definition parseQuery :: "bool \<Rightarrow> string option \<Rightarrow> string option" where
  "parseQuery special q = map_option (percentEncode (querySet special)) q"

definition parseFragment :: "string option \<Rightarrow> string option" where
  "parseFragment f = map_option (percentEncode fragmentSet) f"

text \<open>The path state and the query state on the rest of the input: path and query.\<close>

definition pathState :: "string \<Rightarrow> string list \<Rightarrow> string \<Rightarrow> string list \<times> string option" where
  "pathState sch acc s =
     (case splitFirst (\<lambda>c. c = CHR ''?'') s of
        (pth, q) \<Rightarrow> (parsePath sch acc pth, parseQuery (isSpecial sch) q))"

text \<open>The path start state, on what follows the authority.\<close>

definition pathStart :: "string \<Rightarrow> string \<Rightarrow> string list \<times> string option" where
  "pathStart sch rest =
     (case rest of
        [] \<Rightarrow> if isSpecial sch then pathState sch [] rest else ([], None)
      | c # r \<Rightarrow>
          if isSlash (isSpecial sch) c then pathState sch [] r
          else if isSpecial sch then pathState sch [] rest
          else ([], parseQuery False (Some r)))"

text \<open>
  The authority state, the host state and the port state: \<open>credentials@host:port\<close> up to
  the next slash or question mark. The credentials end at the last \<open>@\<close>, and the password
  starts at their first colon.
\<close>

definition parseAuthority :: "string \<Rightarrow> string \<Rightarrow> string option \<Rightarrow> URL option" where
  "parseAuthority sch s frag =
     (let special = isSpecial sch;
          auth = takeWhile (\<lambda>c. \<not> isSlash special c \<and> c \<noteq> CHR ''?'') s;
          rest = dropWhile (\<lambda>c. \<not> isSlash special c \<and> c \<noteq> CHR ''?'') s;
          (cred, hp) = splitLast (\<lambda>c. c = CHR ''@'') auth;
          (user, pass) = (case cred of None \<Rightarrow> ([], None)
                          | Some cr \<Rightarrow> splitFirst (\<lambda>c. c = CHR '':'') cr);
          (h, p) = splitHostPort False hp;
          (pth, q) = pathStart sch rest
      in if (cred \<noteq> None \<and> hp = []) \<or> (p \<noteq> None \<and> h = []) \<or> (special \<and> h = []) then None
         else
           (case parseHost special h of
              None \<Rightarrow> None
            | Some h' \<Rightarrow>
               (case parsePort sch (case p of None \<Rightarrow> [] | Some x \<Rightarrow> x) of
                  None \<Rightarrow> None
                | Some p' \<Rightarrow>
                    Some \<lparr> scheme = sch,
                           username = percentEncode userinfoSet user,
                           password = (case pass of None \<Rightarrow> [] | Some pw \<Rightarrow> percentEncode userinfoSet pw),
                           host = Some h', port = p', path = pth, opaque = False,
                           query = q, fragment = parseFragment frag \<rparr>)))"

text \<open>The relative state and the relative slash state: a reference without a scheme,
  resolved against a base that has no opaque path and is not a \<open>file\<close> URL.\<close>

definition parseRelative :: "URL \<Rightarrow> string \<Rightarrow> string option \<Rightarrow> URL option" where
  "parseRelative b s frag =
     (let sch = scheme b; special = isSpecial sch in
      case s of
        [] \<Rightarrow> Some (b\<lparr>fragment := parseFragment frag\<rparr>)
      | c # r \<Rightarrow>
          if isSlash special c then
            (if special \<and> r \<noteq> [] \<and> isSlash True (hd r)
             then parseAuthority sch (dropWhile (isSlash True) r) frag
             else if r \<noteq> [] \<and> hd r = CHR ''/'' then parseAuthority sch (tl r) frag
             else
               (case pathState sch [] r of
                  (pth, q) \<Rightarrow> Some (b\<lparr>path := pth, query := q, fragment := parseFragment frag\<rparr>)))
          else if c = CHR ''?'' then
            Some (b\<lparr>query := parseQuery special (Some r), fragment := parseFragment frag\<rparr>)
          else
            (case pathState sch (shorten sch (path b)) s of
               (pth, q) \<Rightarrow> Some (b\<lparr>path := pth, query := q, fragment := parseFragment frag\<rparr>)))"

text \<open>
  The file state, the file slash state and the file host state. \<open>s\<close> is the input after
  \<open>file:\<close>, or the whole input when it has no scheme and the base is a \<open>file\<close> URL; only a
  base that is a \<open>file\<close> URL is used.
\<close>

definition fileURL :: "string \<Rightarrow> string list \<times> string option \<Rightarrow> string option \<Rightarrow> URL" where
  "fileURL h pq frag =
     \<lparr> scheme = ''file'', username = [], password = [], host = Some h, port = None,
       path = fst pq, opaque = False, query = snd pq, fragment = parseFragment frag \<rparr>"

definition fileHost :: "string \<Rightarrow> string option \<Rightarrow> URL option" where
  "fileHost s frag =
     (let buffer = takeWhile (\<lambda>c. \<not> isSlash True c \<and> c \<noteq> CHR ''?'') s;
          rest = dropWhile (\<lambda>c. \<not> isSlash True c \<and> c \<noteq> CHR ''?'') s
      in if driveLetter buffer then Some (fileURL [] (pathState ''file'' [] s) frag)
         else if buffer = [] then Some (fileURL [] (pathStart ''file'' rest) frag)
         else
           (case parseHost True buffer of
              None \<Rightarrow> None
            | Some h \<Rightarrow> Some (fileURL (if h = ''localhost'' then [] else h) (pathStart ''file'' rest) frag)))"

definition parseFile :: "URL option \<Rightarrow> string \<Rightarrow> string option \<Rightarrow> URL option" where
  "parseFile base s frag =
     (let fb = (case base of None \<Rightarrow> None | Some b \<Rightarrow> if scheme b = ''file'' then Some b else None);
          h = (case fb of None \<Rightarrow> [] | Some b \<Rightarrow> (case host b of None \<Rightarrow> [] | Some x \<Rightarrow> x))
      in case s of
           [] \<Rightarrow> (case fb of
                    None \<Rightarrow> Some (fileURL [] (pathState ''file'' [] s) frag)
                  | Some b \<Rightarrow> Some (fileURL h (path b, query b) frag))
         | c # r \<Rightarrow>
             if isSlash True c then
               (if r \<noteq> [] \<and> isSlash True (hd r) then fileHost (tl r) frag
                else
                  (case fb of
                     None \<Rightarrow> Some (fileURL [] (pathState ''file'' [] r) frag)
                   | Some b \<Rightarrow>
                       Some (fileURL h
                         (pathState ''file''
                            (if \<not> startsWithDriveLetter r \<and> path b \<noteq> [] \<and> normalizedDriveLetter (hd (path b))
                             then [hd (path b)] else []) r) frag)))
             else
               (case fb of
                  None \<Rightarrow> Some (fileURL [] (pathState ''file'' [] s) frag)
                | Some b \<Rightarrow>
                    if c = CHR ''?'' then Some (fileURL h (path b, parseQuery True (Some r)) frag)
                    else Some (fileURL h
                           (pathState ''file''
                              (if startsWithDriveLetter s then [] else shorten ''file'' (path b)) s) frag)))"

text \<open>An opaque path: C0 controls and what is beyond ASCII are percent-encoded, and a space
  right before the query or the fragment.\<close>

definition opaquePath :: "string \<Rightarrow> bool \<Rightarrow> string" where
  "opaquePath pth followed =
     (if pth \<noteq> [] \<and> last pth = CHR '' '' \<and> followed
      then percentEncode c0OrBeyond (butlast pth) @ ''%20''
      else percentEncode c0OrBeyond pth)"

text \<open>\<open>new URL(input, base)\<close>; \<open>base\<close> is \<open>None\<close> for the one-argument constructor.\<close>

definition parseURL :: "string \<Rightarrow> URL option \<Rightarrow> URL option" where
  "parseURL input base =
     (case splitFirst (\<lambda>c. c = CHR ''#'') (prepare input) of
        (s, frag) \<Rightarrow>
          (case splitScheme s of
             None \<Rightarrow>
               (case base of
                  None \<Rightarrow> None
                | Some b \<Rightarrow>
                    if opaque b then
                      (if s = [] \<and> frag \<noteq> None then Some (b\<lparr>fragment := parseFragment frag\<rparr>) else None)
                    else if scheme b = ''file'' then parseFile base s frag
                    else parseRelative b s frag)
           | Some (sch, r) \<Rightarrow>
               if sch = ''file'' then parseFile base r frag
               else if isSpecial sch then
                 (case base of
                    Some b \<Rightarrow>
                      if scheme b = sch \<and> \<not> startsWith r ''//''
                      then parseRelative b r frag
                      else parseAuthority sch (dropWhile (isSlash True) r) frag
                  | None \<Rightarrow> parseAuthority sch (dropWhile (isSlash True) r) frag)
               else if startsWith r ''//'' then parseAuthority sch (drop 2 r) frag
               else if startsWith r ''/'' then
                 (case pathState sch [] (drop 1 r) of
                    (pth, q) \<Rightarrow>
                      Some \<lparr> scheme = sch, username = [], password = [], host = None, port = None,
                             path = pth, opaque = False, query = q, fragment = parseFragment frag \<rparr>)
               else
                 (case splitFirst (\<lambda>c. c = CHR ''?'') r of
                    (pth, q) \<Rightarrow>
                      Some \<lparr> scheme = sch, username = [], password = [], host = None, port = None,
                             path = [opaquePath pth (\<not> (q = None \<and> frag = None))], opaque = True,
                             query = parseQuery False q, fragment = parseFragment frag \<rparr>)))"

section \<open>Serializer and getters\<close>

text \<open>\<open>toString()\<close> and \<open>href\<close>, \<open>pathname\<close> and \<open>origin\<close>.\<close>

definition hostPort :: "URL \<Rightarrow> string" where
  "hostPort u = (case host u of None \<Rightarrow> [] | Some h \<Rightarrow> h)
     @ (case port u of None \<Rightarrow> [] | Some p \<Rightarrow> CHR '':'' # showNat p)"

definition pathname :: "URL \<Rightarrow> string" where
  "pathname u = (if opaque u then concat (path u) else concat (map (\<lambda>seg. CHR ''/'' # seg) (path u)))"

definition toString :: "URL \<Rightarrow> string" where
  "toString u = scheme u @ '':''
     @ (case host u of
          None \<Rightarrow> if \<not> opaque u \<and> 1 < length (path u) \<and> hd (path u) = [] then ''/.'' else []
        | Some h \<Rightarrow> ''//''
            @ (if username u \<noteq> [] \<or> password u \<noteq> []
               then username u @ (if password u \<noteq> [] then CHR '':'' # password u else []) @ ''@''
               else [])
            @ hostPort u)
     @ pathname u
     @ (case query u of None \<Rightarrow> [] | Some q \<Rightarrow> CHR ''?'' # q)
     @ (case fragment u of None \<Rightarrow> [] | Some f \<Rightarrow> CHR ''#'' # f)"

text \<open>The origin getter: the tuple origin serialized; for a \<open>blob\<close> URL the origin of the URL
  in its path when that is an \<open>http\<close> or \<open>https\<close> URL; otherwise \<open>null\<close>.\<close>

definition origin :: "URL \<Rightarrow> string" where
  "origin u =
     (if tupleOrigin (scheme u) then scheme u @ ''://'' @ hostPort u
      else if scheme u = ''blob'' \<and> pathname u \<noteq> [] then
        (case parseURL (pathname u) None of
           None \<Rightarrow> ''null''
         | Some v \<Rightarrow> if scheme v = ''http'' \<or> scheme v = ''https''
                     then scheme v @ ''://'' @ hostPort v else ''null'')
      else ''null'')"

text \<open>\<open>new URL(input, base).toString()\<close> with a string base, as the crawler calls it: the
  result, or \<open>None\<close> when either constructor throws.\<close>

definition resolveURL :: "string \<Rightarrow> string \<Rightarrow> string option" where
  "resolveURL input base =
     (case parseURL base None of
        None \<Rightarrow> None
      | Some b \<Rightarrow> map_option toString (parseURL input (Some b)))"


section \<open>Page findings\<close>

text \<open>The \<open>pageData\<close> object of one extraction pass. Its \<open>Set\<close>s are lists without
  duplicates in insertion order; \<open>forms\<close> holds objects, which a \<open>Set\<close> compares by
  identity, so every form element adds one.\<close>

record inputData =
  iname :: string
  itype :: string
  iid :: string
  ivalue :: string
  required :: bool
  placeholder :: string

record formDetails =
  furl :: string
  action :: string
  formMethod :: string
  fid :: string
  fname :: string
  fclass :: string
  formFields :: "inputData list"

record requestData =
  rurl :: string
  rmethod :: string
  headers :: "(string \<times> string) list"
  postData :: "string option"
  resourceType :: string

record pageData =
  links :: "string list"
  forms :: "formDetails list"
  endpoints :: "string list"
  reactComponents :: "string list"
  jsFrameworks :: "string list"
  requestsToReplicateForPage :: "requestData list"

definition emptyPageData :: pageData where
  "emptyPageData = \<lparr> links = [], forms = [], endpoints = [], reactComponents = [],
     jsFrameworks = [], requestsToReplicateForPage = [] \<rparr>"

definition addLink :: "string \<Rightarrow> pageData \<Rightarrow> pageData" where
  "addLink l pd = pd\<lparr>links := setAdd (links pd) l\<rparr>"

definition addEndpoint :: "string \<Rightarrow> pageData \<Rightarrow> pageData" where
  "addEndpoint e pd = pd\<lparr>endpoints := setAdd (endpoints pd) e\<rparr>"

section \<open>extractDataFromJson\<close>

text \<open>A parsed JSON value. An object is the list of its own properties in enumeration
  order; the properties of an array are its items under the keys \<open>"0"\<close>, \<open>"1"\<close>, ...\<close>

datatype json = JNull | JBool bool | JNum int | JStr string
  | JArr "json list" | JObj "(string \<times> json) list"

definition urlShaped :: "string \<Rightarrow> bool" where
  "urlShaped v = (startsWith v ''/'' \<or> startsWith v ''http://'' \<or> startsWith v ''https://'')"

definition sensitiveKey :: "string \<Rightarrow> bool" where
  "sensitiveKey k = (includesStr (toLowerCase k) ''token'' \<or> includesStr (toLowerCase k) ''session'')"

definition sensitiveMarker :: "string \<Rightarrow> string \<Rightarrow> string" where
  "sensitiveMarker k basePageUrl = ''[JSON_SENSITIVE_KEY] '' @ k @ '' on '' @ basePageUrl"

text \<open>The body of the loop for a property whose value is a string. The \<open>try\<close> block
  covers both constructors, so a failure of either leaves \<open>pageData\<close> as it was.\<close>

definition jsonString :: "string \<Rightarrow> string \<Rightarrow> string \<Rightarrow> pageData \<Rightarrow> pageData" where
  "jsonString k v basePageUrl pd =
     (let pd1 =
        (if urlShaped v then
           (case resolveURL v basePageUrl of
              None \<Rightarrow> pd
            | Some full \<Rightarrow>
                (case parseURL basePageUrl None of
                   None \<Rightarrow> pd
                 | Some b \<Rightarrow>
                     let fullUrl = beforeHash full in
                     if startsWith fullUrl (origin b) then addLink fullUrl pd
                     else addEndpoint (''[JSON_API_RESPONSE] '' @ fullUrl) pd))
         else pd)
      in if sensitiveKey k then addEndpoint (sensitiveMarker k basePageUrl) pd1 else pd1)"

text \<open>\<open>typeof jsonData === 'object' && jsonData !== null\<close> holds for arrays as well, so the
  first branch walks objects and arrays alike and the \<open>Array.isArray\<close> branch is never
  reached. A property that is neither a string nor an object is skipped; \<open>null\<close> is an
  object for \<open>typeof\<close>, and the recursive call on it does nothing.\<close>

fun extractDataFromJson :: "json \<Rightarrow> string \<Rightarrow> pageData \<Rightarrow> pageData"
  and walkProps :: "(string \<times> json) list \<Rightarrow> string \<Rightarrow> pageData \<Rightarrow> pageData"
  and walkItems :: "nat \<Rightarrow> json list \<Rightarrow> string \<Rightarrow> pageData \<Rightarrow> pageData"
where
  "extractDataFromJson (JObj kvs) b pd = walkProps kvs b pd"
| "extractDataFromJson (JArr xs) b pd = walkItems 0 xs b pd"
| "extractDataFromJson JNull b pd = pd"
| "extractDataFromJson (JBool x) b pd = pd"
| "extractDataFromJson (JNum n) b pd = pd"
| "extractDataFromJson (JStr s) b pd = pd"
| "walkProps [] b pd = pd"
| "walkProps ((k, v) # kvs) b pd =
     walkProps kvs b (case v of JStr s \<Rightarrow> jsonString k s b pd | _ \<Rightarrow> extractDataFromJson v b pd)"
| "walkItems i [] b pd = pd"
| "walkItems i (v # vs) b pd =
     walkItems (Suc i) vs b
       (case v of JStr s \<Rightarrow> jsonString (showNat i) s b pd | _ \<Rightarrow> extractDataFromJson v b pd)"

definition propStep :: "string \<Rightarrow> json \<Rightarrow> string \<Rightarrow> pageData \<Rightarrow> pageData" where
  "propStep k v b pd = (case v of JStr s \<Rightarrow> jsonString k s b pd | _ \<Rightarrow> extractDataFromJson v b pd)"

text \<open>Two JSON values that are identical except for the string values stored under
  sensitive keys. With \<open>strict\<close>, a value that differs is moreover not URL-shaped on
  either side.\<close>

fun sameButSensitive :: "bool \<Rightarrow> json \<Rightarrow> json \<Rightarrow> bool"
  and sameProps :: "bool \<Rightarrow> (string \<times> json) list \<Rightarrow> (string \<times> json) list \<Rightarrow> bool"
  and sameItems :: "bool \<Rightarrow> json list \<Rightarrow> json list \<Rightarrow> bool"
where
  "sameButSensitive st (JObj kvs) j' = (case j' of JObj kvs' \<Rightarrow> sameProps st kvs kvs' | _ \<Rightarrow> False)"
| "sameButSensitive st (JArr xs) j' = (case j' of JArr ys \<Rightarrow> sameItems st xs ys | _ \<Rightarrow> False)"
| "sameButSensitive st JNull j' = (j' = JNull)"
| "sameButSensitive st (JBool x) j' = (j' = JBool x)"
| "sameButSensitive st (JNum n) j' = (j' = JNum n)"
| "sameButSensitive st (JStr s) j' = (j' = JStr s)"
| "sameProps st [] kvs' = (kvs' = [])"
| "sameProps st ((k, v) # kvs) kvs' =
     (case kvs' of
        [] \<Rightarrow> False
      | (k', v') # r \<Rightarrow>
          k = k' \<and> sameProps st kvs r \<and>
          (case v of
             JStr s \<Rightarrow>
               (case v' of
                  JStr s' \<Rightarrow> s = s' \<or> (sensitiveKey k \<and> (st \<longrightarrow> \<not> urlShaped s \<and> \<not> urlShaped s'))
                | _ \<Rightarrow> False)
           | _ \<Rightarrow> sameButSensitive st v v'))"
| "sameItems st [] ys = (ys = [])"
| "sameItems st (v # vs) ys =
     (case ys of [] \<Rightarrow> False | v' # r \<Rightarrow> sameButSensitive st v v' \<and> sameItems st vs r)"

definition sameValue :: "bool \<Rightarrow> string \<Rightarrow> json \<Rightarrow> json \<Rightarrow> bool" where
  "sameValue st k v v' =
     (case v of
        JStr s \<Rightarrow>
          (case v' of
             JStr s' \<Rightarrow> s = s' \<or> (sensitiveKey k \<and> (st \<longrightarrow> \<not> urlShaped s \<and> \<not> urlShaped s'))
           | _ \<Rightarrow> False)
      | _ \<Rightarrow> sameButSensitive st v v')"

definition isMarker :: "string \<Rightarrow> bool" where
  "isMarker e = startsWith e ''[JSON_SENSITIVE_KEY] ''"

definition markers :: "pageData \<Rightarrow> string set" where
  "markers pd = {e \<in> set (endpoints pd). isMarker e}"

section \<open>Regular expressions\<close>

text \<open>
  The inline-script rules are JavaScript regular expressions, run with \<open>exec\<close> in a loop.
  The rules use literals, character classes, greedy \<open>*\<close>, \<open>+\<close> and \<open>?\<close>, alternatives and
  capture groups, and nothing else, so a backtracking matcher over this syntax is enough.
  \<open>matches r (s, caps)\<close> lists every way \<open>r\<close> can match a prefix of \<open>s\<close>, in the order
  in which backtracking tries them: the rest of the input and the captures for each. An
  iteration of \<open>*\<close> that consumes nothing is rejected, as in JavaScript.
\<close>

datatype rx = Ch "char \<Rightarrow> bool" | Eps | Seq rx rx | Alt rx rx | Star rx | Grp nat rx

type_synonym captures = "nat \<rightharpoonup> string"

fun matches :: "rx \<Rightarrow> string \<times> captures \<Rightarrow> (string \<times> captures) list" where
  "matches (Ch p) (s, caps) = (case s of [] \<Rightarrow> [] | c # cs \<Rightarrow> if p c then [(cs, caps)] else [])"
| "matches Eps (s, caps) = [(s, caps)]"
| "matches (Seq a b) (s, caps) = concat (map (matches b) (matches a (s, caps)))"
| "matches (Alt a b) (s, caps) = matches a (s, caps) @ matches b (s, caps)"
| "matches (Star a) (s, caps) =
     concat (map (\<lambda>(s', caps'). if length s' < length s then matches (Star a) (s', caps') else [])
               (matches a (s, caps)))
     @ [(s, caps)]"
| "matches (Grp n a) (s, caps) =
     map (\<lambda>(s', caps'). (s', caps'(n \<mapsto> take (length s - length s') s))) (matches a (s, caps))"

text \<open>One call of \<open>exec\<close> at a position: the first way to match there.\<close>

definition matchAt :: "rx \<Rightarrow> string \<Rightarrow> (string \<times> captures) option" where
  "matchAt r s = (case matches r (s, Map.empty) of [] \<Rightarrow> None | m # _ \<Rightarrow> Some m)"

text \<open>
  The loop \<open>while ((m = pattern.exec(text)) !== null)\<close> on a fresh global pattern: \<open>exec\<close>
  looks for the leftmost position at or after \<open>lastIndex\<close> where the pattern matches and
  moves \<open>lastIndex\<close> behind the match. The result lists the matched text and the captures
  of every match. A match of the empty string would leave \<open>lastIndex\<close> in place; none of
  the rules below can match the empty string, and the model stops there.
\<close>

function execAll :: "rx \<Rightarrow> string \<Rightarrow> (string \<times> captures) list" where
  "execAll r s =
     (case matchAt r s of
        Some (rest, caps) \<Rightarrow>
          if length rest < length s
          then (take (length s - length rest) s, caps) # execAll r rest
          else []
      | None \<Rightarrow> (case s of [] \<Rightarrow> [] | _ # t \<Rightarrow> execAll r t))"
  by pat_completeness auto
termination
  by (relation "measure (\<lambda>(r, s). length s)") auto

declare execAll.simps [simp del]

text \<open>Building blocks of the rules.\<close>

definition lit :: "string \<Rightarrow> rx" where
  "lit s = foldr (\<lambda>c r. Seq (Ch (\<lambda>x. x = c)) r) s Eps"

definition litI :: "string \<Rightarrow> rx" where
  "litI s = foldr (\<lambda>c r. Seq (Ch (\<lambda>x. lowerChar x = lowerChar c)) r) s Eps"

definition Plus :: "rx \<Rightarrow> rx" where
  "Plus r = Seq r (Star r)"

definition Opt :: "rx \<Rightarrow> rx" where
  "Opt r = Alt r Eps"

fun seqs :: "rx list \<Rightarrow> rx" where
  "seqs [] = Eps"
| "seqs [r] = r"
| "seqs (r # rs) = Seq r (seqs rs)"

fun alts :: "rx list \<Rightarrow> rx" where
  "alts [] = Eps"
| "alts [r] = r"
| "alts (r # rs) = Alt r (alts rs)"

text \<open>\<open>\s\<close>: the white space and line terminators of JavaScript. Below 256 these are tab,
  line feed, vertical tab, form feed, carriage return, space and the no-break space.\<close>

definition isSpace :: "char \<Rightarrow> bool" where
  "isSpace c = (code c = 32 \<or> (9 \<le> code c \<and> code c \<le> 13) \<or> code c = 160)"

text \<open>\<open>\w\<close> and, for the rules with the flag \<open>i\<close>, letters compared without case: without
  the flag \<open>u\<close> a character that is not ASCII never matches an ASCII letter.\<close>

definition isWord :: "char \<Rightarrow> bool" where
  "isWord c = (isAlpha c \<or> isDigit c \<or> c = CHR ''_'')"

definition isQuote :: "char \<Rightarrow> bool" where
  "isQuote c = (code c = 39 \<or> code c = 34)"

definition ws :: rx where
  "ws = Star (Ch isSpace)"

definition quote :: rx where
  "quote = Ch isQuote"

definition quoted :: "nat \<Rightarrow> rx" where
  "quoted n = seqs [quote, Grp n (Plus (Ch (\<lambda>c. \<not> isQuote c))), quote]"

definition notBrace :: rx where
  "notBrace = Star (Ch (\<lambda>c. c \<noteq> CHR ''}''))"

definition pathChars :: rx where
  "pathChars = Plus (Ch (\<lambda>c. isWord c \<or> c = CHR ''/'' \<or> c = CHR ''-''))"

text \<open>The eight rules of \<open>extractInfo\<close>, in the order of the \<open>patterns\<close> array.\<close>

definition pattern0 :: rx where
  "pattern0 = seqs [litI ''fetch'', ws, lit ''('', ws, quoted 1, ws,
     Opt (seqs [lit '','', ws, lit ''{'', notBrace, litI ''method'', ws, lit '':'', ws,
                quoted 2, notBrace, lit ''}''])]"

definition pattern1 :: rx where
  "pattern1 = seqs [litI ''axios.'',
     Grp 1 (alts [litI ''get'', litI ''post'', litI ''put'', litI ''delete'', litI ''patch'',
                  litI ''options'', litI ''head'']),
     ws, lit ''('', ws, quoted 2]"

definition pattern2 :: rx where
  "pattern2 = seqs [lit ''$.'', Grp 1 (alts [litI ''ajax'', litI ''get'', litI ''post'']),
     ws, lit ''('', ws,
     Alt (quoted 2)
         (seqs [lit ''{'', notBrace, litI ''url'', ws, lit '':'', ws, quoted 3, notBrace, lit ''}''])]"

definition pattern3 :: rx where
  "pattern3 = seqs [litI ''url'', ws, lit '':'', ws, quoted 1]"

definition pattern4 :: rx where
  "pattern4 = seqs [Opt quote,
     alts [litI ''endpoint'', Seq (litI ''api'') (Opt (Alt (litI ''Path'') (litI ''Url''))), litI ''url''],
     Opt quote, ws, lit '':'', ws, quoted 1]"

definition pattern5 :: rx where
  "pattern5 = Seq (lit ''/api/'') pathChars"

definition pattern6 :: rx where
  "pattern6 = lit ''/graphql''"

definition pattern7 :: rx where
  "pattern7 = seqs [lit ''/v'', Plus (Ch isDigit), lit ''/'', pathChars]"

definition patterns :: "rx list" where
  "patterns = [pattern0, pattern1, pattern2, pattern3, pattern4, pattern5, pattern6, pattern7]"





section \<open>The page as the crawler sees it\<close>

text \<open>
  The rendering engine and the HTML parser are outside the repository. What one call of
  \<open>extractInfo\<close> observes of them is a value of type \<open>page\<close>: the network events the
  observers receive until the call returns, whether \<open>page.goto\<close> throws, what
  \<open>page.url()\<close> returns after settling, the results of the framework probes and the
  parsed content. \<open>None\<close> stands for a call that throws.
\<close>

record element =
  tagName :: string
  attrs :: "(string \<times> string) list"

text \<open>\<open>$(el).attr(name)\<close>: \<open>undefined\<close> (\<open>None\<close>) when the attribute is absent.\<close>

definition attr :: "element \<Rightarrow> string \<Rightarrow> string option" where
  "attr el n = map_of (attrs el) n"

record formElement =
  formEl :: element
  controls :: "element list"

record dom =
  anchors :: "element list"
  formEls :: "formElement list"
  inlineScripts :: "string list"
  resources :: "element list"

record response =
  request :: requestData
  responseUrl :: string
  status :: nat
  contentType :: "string option"
  jsonBody :: "json option"

datatype netEvent = Request requestData | Response response

record page =
  netEvents :: "netEvent list"
  gotoThrows :: bool
  pageUrl :: string
  detectedFrameworks :: "string list option"
  reactComponentsArray :: "string list option"
  content :: "dom option"

section \<open>extractInfo\<close>

text \<open>The \<open>request\<close> observer.\<close>

definition onRequest :: "requestData \<Rightarrow> pageData \<Rightarrow> pageData" where
  "onRequest rq pd =
     (let pd1 = (if rmethod rq \<noteq> ''GET''
                 then pd\<lparr>requestsToReplicateForPage := requestsToReplicateForPage pd @ [rq]\<rparr>
                 else pd)
      in if resourceType rq = ''xhr'' \<or> resourceType rq = ''fetch''
            \<or> includesStr (rurl rq) ''/api/'' \<or> includesStr (rurl rq) ''/graphql''
         then addEndpoint (''[INTERCEPTED] '' @ rmethod rq @ '' '' @ rurl rq) pd1
         else pd1)"

text \<open>The \<open>response\<close> observer; \<open>url\<close> is the URL \<open>extractInfo\<close> was called with.\<close>

definition onResponse :: "string \<Rightarrow> response \<Rightarrow> pageData \<Rightarrow> pageData" where
  "onResponse url rs pd =
     (let rq = request rs;
          pd1 = (if (resourceType rq = ''xhr'' \<or> resourceType rq = ''fetch''
                      \<or> includesStr (responseUrl rs) ''/api/'')
                    \<and> (status rs < 200 \<or> 400 \<le> status rs)
                 then addEndpoint (''[API_ERROR_'' @ showNat (status rs) @ ''] '' @ rmethod rq
                                    @ '' '' @ responseUrl rs) pd
                 else pd)
      in case contentType rs of
           None \<Rightarrow> pd1
         | Some ct \<Rightarrow>
             if ct \<noteq> [] \<and> includesStr ct ''application/json''
             then (case jsonBody rs of None \<Rightarrow> pd1 | Some j \<Rightarrow> extractDataFromJson j url pd1)
             else pd1)"

definition onNetEvent :: "string \<Rightarrow> pageData \<Rightarrow> netEvent \<Rightarrow> pageData" where
  "onNetEvent url pd ev = (case ev of Request rq \<Rightarrow> onRequest rq pd | Response rs \<Rightarrow> onResponse url rs pd)"

text \<open>
  Link extraction. \<open>cur\<close> is the URL that bare fragments are appended to and \<open>base\<close> the
  URL that references are resolved against and whose origin filters the result.
  \<open>anchorLink\<close> is \<open>fullUrl\<close> after \<open>split('#')[0]\<close>, or \<open>None\<close> when the anchor is skipped
  or the constructor throws.
\<close>

definition anchorLink :: "string \<Rightarrow> URL \<Rightarrow> string \<Rightarrow> string option" where
  "anchorLink cur base href =
     (if href = [] then None
      else if startsWith href ''#'' then Some (beforeHash (cur @ href))
      else if startsWith href ''javascript:'' then None
      else map_option (\<lambda>u. beforeHash (toString u)) (parseURL href (Some base)))"

definition linkStep :: "string \<Rightarrow> URL \<Rightarrow> pageData \<Rightarrow> element \<Rightarrow> pageData" where
  "linkStep cur base pd el =
     (case attr el ''href'' of
        None \<Rightarrow> pd
      | Some href \<Rightarrow>
          (case anchorLink cur base href of
             None \<Rightarrow> pd
           | Some fullUrl \<Rightarrow> if startsWith fullUrl (origin base) then addLink fullUrl pd else pd))"

definition extractLinks :: "string \<Rightarrow> URL \<Rightarrow> element list \<Rightarrow> pageData \<Rightarrow> pageData" where
  "extractLinks cur base els pd = foldl (linkStep cur base) pd els"

text \<open>
  Form extraction. \<open>dflt\<close> is the default action. The constructor is not inside a \<open>try\<close>
  of its own here: when it throws, the loop and the rest of \<open>extractInfo\<close> are abandoned
  (\<open>None\<close>).
\<close>

definition inputDataOf :: "element \<Rightarrow> inputData" where
  "inputDataOf el =
     \<lparr> iname = orElse (attr el ''name'') [],
       itype = orElse (attr el ''type'') (toLowerCase (tagName el)),
       iid = orElse (attr el ''id'') [],
       ivalue = orElse (attr el ''value'') [],
       required = (attr el ''required'' \<noteq> None),
       placeholder = orElse (attr el ''placeholder'') [] \<rparr>"

definition formDetailsOf :: "string \<Rightarrow> string \<Rightarrow> URL \<Rightarrow> formElement \<Rightarrow> formDetails option" where
  "formDetailsOf url dflt base fe =
     (let act = orElse (attr (formEl fe) ''action'') dflt;
          method = toUpperCase (orElse (attr (formEl fe) ''method'') ''GET'')
      in case (if startsWith act ''http'' then Some act
               else map_option toString (parseURL act (Some base))) of
           None \<Rightarrow> None
         | Some a \<Rightarrow>
             Some \<lparr> furl = url, action = a, formMethod = method,
                    fid = orElse (attr (formEl fe) ''id'') [],
                    fname = orElse (attr (formEl fe) ''name'') [],
                    fclass = orElse (attr (formEl fe) ''class'') [],
                    formFields = map inputDataOf (controls fe) \<rparr>)"

text \<open>\<open>byValue\<close>: \<open>advanced-crawler.js\<close> adds the form to the \<open>Set\<close> as a JSON string,
  which the \<open>Set\<close> compares by value; the later version adds the object itself.\<close>

fun extractForms ::
  "bool \<Rightarrow> string \<Rightarrow> string \<Rightarrow> URL \<Rightarrow> formElement list \<Rightarrow> pageData \<Rightarrow> pageData \<times> bool" where
  "extractForms byValue url dflt base [] pd = (pd, True)"
| "extractForms byValue url dflt base (fe # fes) pd =
     (case formDetailsOf url dflt base fe of
        None \<Rightarrow> (pd, False)
      | Some fd \<Rightarrow>
          extractForms byValue url dflt base fes
            (pd\<lparr>forms := (if byValue then setAdd (forms pd) fd else forms pd @ [fd])\<rparr>))"

text \<open>
  Inline scripts. \<open>candidate i m\<close> is \<open>extractedUrlString\<close> and \<open>inferredMethod\<close> for a
  match \<open>m\<close> of rule \<open>i\<close>; a missing or empty string is falsy.
\<close>

definition group :: "captures \<Rightarrow> nat \<Rightarrow> string" where
  "group caps n = (case caps n of None \<Rightarrow> [] | Some s \<Rightarrow> s)"

definition candidate :: "nat \<Rightarrow> string \<times> captures \<Rightarrow> string \<times> string" where
  "candidate i m =
     (case m of (m0, caps) \<Rightarrow>
        if i = 0 then (group caps 1, toUpperCase (group caps 2))
        else if i = 1 then (group caps 2, toUpperCase (group caps 1))
        else if i = 2 then
          (if group caps 2 \<noteq> [] then group caps 2 else group caps 3,
           if toLowerCase (group caps 1) = ''get'' \<or> toLowerCase (group caps 1) = ''post''
           then toUpperCase (group caps 1) else [])
        else if i = 3 \<or> i = 4 then (group caps 1, [])
        else (m0, if i = 6 \<and> includesStr m0 ''/graphql'' then ''POST'' else []))"

definition dirname :: "string \<Rightarrow> string" where
  "dirname p = rev (dropWhile (\<lambda>c. c \<noteq> CHR ''/'') (rev p))"

text \<open>\<open>fullEndpointURL\<close>; \<open>None\<close> when the candidate is skipped or the constructor throws.
  \<open>relative\<close> tells whether candidates that start neither with \<open>/\<close> nor with \<open>http://\<close> or
  \<open>https://\<close> are resolved against the directory of the page (the later version of the
  crawler) or skipped (\<open>advanced-crawler.js\<close>).\<close>

definition fullEndpointURL :: "bool \<Rightarrow> URL \<Rightarrow> string \<Rightarrow> string option" where
  "fullEndpointURL relative base ext =
     (if startsWith ext ''/'' then map_option toString (parseURL ext (Some base))
      else if startsWith ext ''http://'' \<or> startsWith ext ''https://'' then Some ext
      else if \<not> relative then None
      else if pathname base \<noteq> [] \<and> last (pathname base) = CHR ''/''
      then map_option toString (parseURL (pathname base @ ext) (Some base))
      else map_option toString (parseURL (dirname (pathname base) @ ext) (Some base)))"

definition matchStep :: "bool \<Rightarrow> URL \<Rightarrow> nat \<Rightarrow> pageData \<Rightarrow> string \<times> captures \<Rightarrow> pageData" where
  "matchStep relative base i pd m =
     (case candidate i m of (ext, inferredMethod) \<Rightarrow>
        if ext = [] then pd
        else
          (case fullEndpointURL relative base ext of
             None \<Rightarrow> pd
           | Some full \<Rightarrow>
               let tag = (if inferredMethod \<noteq> [] then ''[SCRIPT_EVIDENT]'' else ''[SCRIPT_URL_ONLY]'');
                   methodPrefix = (if inferredMethod \<noteq> [] then inferredMethod @ '' '' else []);
                   forced = (i = 6 \<and> includesStr full ''/graphql'' \<and> inferredMethod = [])
               in addEndpoint ((if forced then ''[SCRIPT_EVIDENT]'' else tag) @ '' ''
                               @ (if forced then ''POST '' else methodPrefix) @ full) pd))"

definition patternStep :: "bool \<Rightarrow> URL \<Rightarrow> string \<Rightarrow> pageData \<Rightarrow> nat \<times> rx \<Rightarrow> pageData" where
  "patternStep relative base script pd ip =
     (case ip of (i, pattern) \<Rightarrow> foldl (matchStep relative base i) pd (execAll pattern script))"

definition scriptStep :: "bool \<Rightarrow> URL \<Rightarrow> pageData \<Rightarrow> string \<Rightarrow> pageData" where
  "scriptStep relative base pd script =
     (if script = [] then pd
      else foldl (patternStep relative base script) pd (zip [0..<length patterns] patterns))"

definition extractScripts :: "bool \<Rightarrow> URL \<Rightarrow> string list \<Rightarrow> pageData \<Rightarrow> pageData" where
  "extractScripts relative base scripts pd = foldl (scriptStep relative base) pd scripts"

text \<open>Resource URLs of \<open>script[src], link[href], img[src], source[src]\<close>.\<close>

definition frameworkOf :: "string \<Rightarrow> string option" where
  "frameworkOf src =
     (if includesStr src ''react'' then Some ''React''
      else if includesStr src ''vue'' then Some ''Vue.js''
      else if includesStr src ''angular'' then Some ''Angular''
      else if includesStr src ''ember'' then Some ''Ember''
      else if includesStr src ''backbone'' then Some ''Backbone''
      else None)"

definition resourceStep :: "URL \<Rightarrow> pageData \<Rightarrow> element \<Rightarrow> pageData" where
  "resourceStep base pd el =
     (let src = orElse (attr el ''src'') (orElse (attr el ''href'') [])
      in if src = [] then pd
         else
           (case parseURL src (Some base) of
              None \<Rightarrow> pd
            | Some full \<Rightarrow>
                let pd1 = addEndpoint (''[RESOURCE_URL] '' @ toString full) pd
                in (case frameworkOf src of
                      None \<Rightarrow> pd1
                    | Some fw \<Rightarrow> pd1\<lparr>jsFrameworks := setAdd (jsFrameworks pd1) fw\<rparr>)))"

definition extractResources :: "URL \<Rightarrow> element list \<Rightarrow> pageData \<Rightarrow> pageData" where
  "extractResources base els pd = foldl (resourceStep base) pd els"

text \<open>The framework probes: \<open>extractReactComponents\<close> runs only when React was detected.
  The second component tells whether both probes returned; the frameworks are recorded
  before the second probe runs.\<close>

definition probeFrameworks :: "page \<Rightarrow> pageData \<Rightarrow> pageData \<times> bool" where
  "probeFrameworks p pd =
     (case detectedFrameworks p of
        None \<Rightarrow> (pd, False)
      | Some fws \<Rightarrow>
          let pd1 = pd\<lparr>jsFrameworks := setAddAll (jsFrameworks pd) fws\<rparr>
          in if ''React'' \<in> set fws
             then (case reactComponentsArray p of
                     None \<Rightarrow> (pd1, False)
                   | Some cs \<Rightarrow> (pd1\<lparr>reactComponents := setAddAll (reactComponents pd1) cs\<rparr>, True))
             else (pd1, True))"

text \<open>
  The stages that read the parsed content, in the order of the source. \<open>cur\<close> and
  \<open>base\<close> are the current URL and its parse in the later version (\<open>later = True\<close>), and
  the requested URL and its parse in \<open>advanced-crawler.js\<close>.
\<close>

definition extractContent :: "bool \<Rightarrow> string \<Rightarrow> string \<Rightarrow> URL \<Rightarrow> dom \<Rightarrow> pageData \<Rightarrow> pageData" where
  "extractContent later url cur base d pd =
     (case extractForms (\<not> later) url cur base (formEls d) (extractLinks cur base (anchors d) pd) of
        (pd1, completed) \<Rightarrow>
          if completed
          then extractResources base (resources d) (extractScripts later base (inlineScripts d) pd1)
          else pd1)"

text \<open>
  \<open>extractInfo(url, page, isInitialExtraction)\<close> of the later version. \<open>new URL(url)\<close> is
  outside the \<open>try\<close>, so the call throws (\<open>None\<close>) when \<open>url\<close> does not parse. Everything
  else is inside: an exception ends the pass and \<open>pageData\<close> is returned as it is then.
  The observers are installed by the initial pass and write into its \<open>pageData\<close>; a later
  pass on the same page installs none.
\<close>

definition extractInfo :: "string \<Rightarrow> page \<Rightarrow> bool \<Rightarrow> pageData option" where
  "extractInfo url p isInitialExtraction =
     (case parseURL url None of
        None \<Rightarrow> None
      | Some base \<Rightarrow>
          let pd0 = (if isInitialExtraction then foldl (onNetEvent url) emptyPageData (netEvents p)
                     else emptyPageData)
          in if isInitialExtraction \<and> gotoThrows p then Some pd0
             else
               (case parseURL (pageUrl p) None of
                  None \<Rightarrow> Some pd0
                | Some baseForExtraction \<Rightarrow>
                    (case probeFrameworks p pd0 of
                       (pd1, probed) \<Rightarrow>
                         if \<not> probed then Some pd1
                         else
                           (case content p of
                              None \<Rightarrow> Some pd1
                            | Some d \<Rightarrow>
                                Some (extractContent True url (pageUrl p) baseForExtraction d pd1)))))"

text \<open>
  \<open>extractInfo(url, page)\<close> of \<open>advanced-crawler.js\<close>: the \<open>request\<close> observer only
  continues the request, there is no \<open>response\<close> observer, every pass navigates, and
  links, forms and endpoints are resolved against the requested \<open>url\<close>.
\<close>

definition extractInfo0 :: "string \<Rightarrow> page \<Rightarrow> pageData option" where
  "extractInfo0 url p =
     (case parseURL url None of
        None \<Rightarrow> None
      | Some base \<Rightarrow>
          if gotoThrows p then Some emptyPageData
          else
            (case probeFrameworks p emptyPageData of
               (pd1, probed) \<Rightarrow>
                 if \<not> probed then Some pd1
                 else
                   (case content p of
                      None \<Rightarrow> Some pd1
                    | Some d \<Rightarrow> Some (extractContent False url url base d pd1))))"

text \<open>A pass reaches the parsed content when navigation, the parse of the current URL,
  the framework probes and \<open>page.content()\<close> all succeed.\<close>

definition reachesContent :: "page \<Rightarrow> bool \<Rightarrow> bool" where
  "reachesContent p isInitialExtraction \<longleftrightarrow>
     \<not> (isInitialExtraction \<and> gotoThrows p) \<and> parseURL (pageUrl p) None \<noteq> None
     \<and> snd (probeFrameworks p emptyPageData) \<and> content p \<noteq> None"

text \<open>Pages and elements used as concrete inputs below.\<close>

definition anchor :: "string \<Rightarrow> element" where
  "anchor href = \<lparr> tagName = ''A'', attrs = [(''href'', href)] \<rparr>"

definition formWith :: "(string \<times> string) list \<Rightarrow> formElement" where
  "formWith as = \<lparr> formEl = \<lparr> tagName = ''FORM'', attrs = as \<rparr>, controls = [] \<rparr>"

definition pageWith :: "string \<Rightarrow> dom \<Rightarrow> page" where
  "pageWith cur d = \<lparr> netEvents = [], gotoThrows = False, pageUrl = cur,
     detectedFrameworks = Some [], reactComponentsArray = Some [], content = Some d \<rparr>"

definition emptyDom :: dom where
  "emptyDom = \<lparr> anchors = [], formEls = [], inlineScripts = [], resources = [] \<rparr>"



section \<open>The crawl\<close>

definition MAX_DEPTH :: nat where
  "MAX_DEPTH = 3"

definition MAX_CONCURRENT_PAGES :: nat where
  "MAX_CONCURRENT_PAGES = 5"

text \<open>
  The two versions of the crawler share the scheduler. \<open>Advanced\<close> is
  \<open>advanced-crawler.js\<close>, whose sessions extract once and submit no forms; \<open>Later\<close> is the
  later version with the form loop.
\<close>

datatype version = Advanced | Later

text \<open>
  JavaScript runs one task at a time, and a task runs until its next \<open>await\<close>. The state
  of the program between two tasks is a \<open>crawlState\<close>: the module's global sets, the
  local variables of \<open>crawl\<close>, and for each call of \<open>processUrlAndExtractData\<close> that has
  not delivered its result the \<open>await\<close> it is suspended at.

  \<^item> \<open>Extracting\<close>: in \<open>newPage\<close>, \<open>setupPage\<close> or the initial \<open>extractInfo\<close>;
  \<^item> \<open>Submitting f fs newLinksFromPage\<close>: in the form loop, at form \<open>f\<close>, with \<open>fs\<close> to come;
  \<^item> \<open>Returning newLinks\<close>: returned; the \<open>then\<close> callback of \<open>crawl\<close> has not run yet.

  \<open>processed\<close> is the log of the lines \<open>Processando [D:depth]: url\<close>, one for each session
  that passed the visited test; \<open>resultsSaved\<close> counts the calls of \<open>saveResults\<close>.
\<close>

datatype phase = Extracting | Submitting formDetails "formDetails list" "string list"
  | Returning "string list"

datatype coordinator = Filling | Waiting "string list" | Done

record crawlState =
  visited :: "string list"
  linksFound :: "string list"
  formsFound :: "formDetails list"
  endpointsFound :: "string list"
  reactComponentsFound :: "string list"
  jsFrameworksDetected :: "string list"
  requestsToReplicate :: "requestData list"
  queue :: "(string \<times> nat) list"
  activePages :: "(string \<times> nat \<times> phase) list"
  urlCounter :: nat
  coordinator :: coordinator
  processed :: "(string \<times> nat) list"
  resultsSaved :: nat

definition initial :: "string \<Rightarrow> crawlState" where
  "initial startUrl =
     \<lparr> visited = [], linksFound = [], formsFound = [], endpointsFound = [],
       reactComponentsFound = [], jsFrameworksDetected = [], requestsToReplicate = [],
       queue = [(startUrl, 0)], activePages = [], urlCounter = 0, coordinator = Filling,
       processed = [], resultsSaved = 0 \<rparr>"

text \<open>
  What the environment does to the program, and the coordinator's own turns:

  \<^item> \<open>Dispatch\<close>: one iteration of the inner \<open>while\<close> of \<open>crawl\<close>;
  \<^item> \<open>Await\<close>: \<open>crawl\<close> leaves the inner loop and awaits \<open>Promise.race\<close>, or leaves the
    outer loop, returns, and \<open>saveResults\<close> runs;
  \<^item> \<open>Resume\<close>: \<open>crawl\<close> continues after one of the promises it awaited has settled;
  \<^item> \<open>Extracted url p\<close>: the initial \<open>extractInfo\<close> of the session for \<open>url\<close> returns, having
    observed \<open>p\<close>;
  \<^item> \<open>Submitted url before after p\<close>: the session for \<open>url\<close> has submitted its next form
    (\<open>page.url()\<close> was \<open>before\<close> and is now \<open>after\<close>) and the extraction that follows has
    observed \<open>p\<close>;
  \<^item> \<open>Crashed url\<close>: another call of the session throws, and its \<open>catch\<close> returns \<open>[]\<close>;
  \<^item> \<open>Returned url\<close>: the \<open>then\<close> callback for the session's result runs.
\<close>

datatype event = Dispatch | Await | Resume
  | Extracted string page | Submitted string string string page | Crashed string | Returned string

text \<open>The start of \<open>processUrlAndExtractData\<close>, up to its first \<open>await\<close>.\<close>

definition processStart :: "string \<Rightarrow> nat \<Rightarrow> crawlState \<Rightarrow> phase \<times> crawlState" where
  "processStart url depth s =
     (if url \<in> set (visited s) \<or> MAX_DEPTH < depth then (Returning [], s)
      else (Extracting, s\<lparr>visited := setAdd (visited s) url,
                           processed := processed s @ [(url, depth)]\<rparr>))"

text \<open>One iteration of the inner loop: \<open>queue.shift()\<close>, the tests, the call and
  \<open>activePages.set\<close>.\<close>

definition dispatch :: "crawlState \<Rightarrow> crawlState" where
  "dispatch s =
     (case queue s of
        [] \<Rightarrow> s
      | (url, depth) # q \<Rightarrow>
          let s1 = s\<lparr>queue := q\<rparr> in
          if url \<in> set (visited s1) \<or> MAX_DEPTH < depth then s1
          else
            (case processStart url depth (s1\<lparr>urlCounter := urlCounter s1 + 1\<rparr>) of
               (ph, s2) \<Rightarrow> s2\<lparr>activePages := AList.update url (depth, ph) (activePages s2)\<rparr>))"

definition setPhase :: "string \<Rightarrow> nat \<Rightarrow> phase \<Rightarrow> crawlState \<Rightarrow> crawlState" where
  "setPhase url depth ph s = s\<lparr>activePages := AList.update url (depth, ph) (activePages s)\<rparr>"

text \<open>Merging the findings of the initial extraction into the global sets.\<close>

definition mergeInitial :: "pageData \<Rightarrow> crawlState \<Rightarrow> crawlState" where
  "mergeInitial pd s =
     s\<lparr> linksFound := setAddAll (linksFound s) (links pd),
        formsFound := setAddAll (formsFound s) (forms pd),
        endpointsFound := setAddAll (endpointsFound s) (endpoints pd),
        reactComponentsFound := setAddAll (reactComponentsFound s) (reactComponents pd),
        jsFrameworksDetected := setAddAll (jsFrameworksDetected s) (jsFrameworks pd),
        requestsToReplicate := requestsToReplicate s @ requestsToReplicateForPage pd \<rparr>"

text \<open>Merging the findings of an extraction after a form submission: a link that is new
  to \<open>linksFound\<close> is also pushed to \<open>newLinksFromPage\<close>; forms are not merged.\<close>

definition mergeLink :: "string list \<times> string list \<Rightarrow> string \<Rightarrow> string list \<times> string list" where
  "mergeLink acc link =
     (case acc of (found, newLinks) \<Rightarrow>
        if link \<in> set found then (found, newLinks) else (found @ [link], newLinks @ [link]))"

definition mergePostSubmit :: "pageData \<Rightarrow> string list \<Rightarrow> crawlState \<Rightarrow> crawlState \<times> string list" where
  "mergePostSubmit pd newLinks s =
     (case foldl mergeLink (linksFound s, newLinks) (links pd) of
        (found, newLinks') \<Rightarrow>
          (s\<lparr> linksFound := found,
              endpointsFound := setAddAll (endpointsFound s) (endpoints pd),
              requestsToReplicate := requestsToReplicate s @ requestsToReplicateForPage pd,
              reactComponentsFound := setAddAll (reactComponentsFound s) (reactComponents pd),
              jsFrameworksDetected := setAddAll (jsFrameworksDetected s) (jsFrameworks pd) \<rparr>,
           newLinks'))"

text \<open>The test after a submission. \<open>new URL(url)\<close> is evaluated only when the first two
  conjuncts hold; \<open>None\<close> when it throws.\<close>

definition formNavigation ::
  "string \<Rightarrow> string \<Rightarrow> string \<Rightarrow> string list \<Rightarrow> crawlState \<Rightarrow> (crawlState \<times> string list) option" where
  "formNavigation url urlBeforeSubmit urlAfterSubmit newLinks s =
     (if urlAfterSubmit \<noteq> urlBeforeSubmit \<and> urlAfterSubmit \<notin> set (visited s) then
        (case parseURL url None of
           None \<Rightarrow> None
         | Some b \<Rightarrow>
             if startsWith urlAfterSubmit (origin b)
             then Some (s\<lparr>visited := setAdd (visited s) urlAfterSubmit\<rparr>,
                        if urlAfterSubmit \<in> set newLinks then newLinks else newLinks @ [urlAfterSubmit])
             else Some (s, newLinks))
      else Some (s, newLinks))"

text \<open>The initial extraction of a session returns.\<close>

definition extracted :: "version \<Rightarrow> string \<Rightarrow> nat \<Rightarrow> page \<Rightarrow> crawlState \<Rightarrow> crawlState" where
  "extracted v url depth p s =
     (case (if v = Later then extractInfo url p True else extractInfo0 url p) of
        None \<Rightarrow> setPhase url depth (Returning []) s
      | Some pd \<Rightarrow>
          let s1 = mergeInitial pd s in
          (case forms pd of
             [] \<Rightarrow> setPhase url depth (Returning (links pd)) s1
           | f # fs \<Rightarrow>
               if v = Later \<and> depth < MAX_DEPTH
               then setPhase url depth (Submitting f fs (links pd)) s1
               else setPhase url depth (Returning (links pd)) s1))"

text \<open>One round of the form loop.\<close>

definition submitted ::
  "string \<Rightarrow> nat \<Rightarrow> formDetails list \<Rightarrow> string list \<Rightarrow> string \<Rightarrow> string \<Rightarrow> page \<Rightarrow> crawlState \<Rightarrow> crawlState" where
  "submitted url depth fs newLinks urlBeforeSubmit urlAfterSubmit p s =
     (case extractInfo urlAfterSubmit p False of
        None \<Rightarrow> setPhase url depth (Returning []) s
      | Some pd \<Rightarrow>
          (case mergePostSubmit pd newLinks s of
             (s1, newLinks1) \<Rightarrow>
               (case formNavigation url urlBeforeSubmit urlAfterSubmit newLinks1 s1 of
                  None \<Rightarrow> setPhase url depth (Returning []) s1
                | Some (s2, newLinks2) \<Rightarrow>
                    setPhase url depth
                      (case fs of [] \<Rightarrow> Returning newLinks2 | g # gs \<Rightarrow> Submitting g gs newLinks2) s2)))"

text \<open>The \<open>then\<close> callback: the links that pass the filter are pushed to the queue one by
  one, then the session is deleted from \<open>activePages\<close>.\<close>

definition enqueue :: "nat \<Rightarrow> crawlState \<Rightarrow> string \<Rightarrow> crawlState" where
  "enqueue depth s link =
     (if link \<notin> set (visited s) \<and> link \<notin> fst ` set (queue s) \<and> depth + 1 \<le> MAX_DEPTH
      then s\<lparr>queue := queue s @ [(link, depth + 1)]\<rparr> else s)"

definition returned :: "string \<Rightarrow> nat \<Rightarrow> string list \<Rightarrow> crawlState \<Rightarrow> crawlState" where
  "returned url depth newLinks s =
     (let s1 = foldl (enqueue depth) s newLinks
      in s1\<lparr>activePages := AList.delete url (activePages s1)\<rparr>)"

text \<open>A promise of \<open>activePages\<close> has settled when its callback has deleted the entry.\<close>

definition settled :: "crawlState \<Rightarrow> string \<Rightarrow> bool" where
  "settled s url = (url \<notin> fst ` set (activePages s))"

text \<open>The step of the program for an event; \<open>None\<close> when the event cannot happen in the
  state.\<close>

definition step :: "version \<Rightarrow> event \<Rightarrow> crawlState \<Rightarrow> crawlState option" where
  "step v e s =
     (case e of
        Dispatch \<Rightarrow>
          if coordinator s = Filling \<and> queue s \<noteq> [] \<and> length (activePages s) < MAX_CONCURRENT_PAGES
          then Some (dispatch s) else None
      | Await \<Rightarrow>
          if coordinator s = Filling
             \<and> \<not> (queue s \<noteq> [] \<and> length (activePages s) < MAX_CONCURRENT_PAGES)
          then Some (if activePages s \<noteq> [] then s\<lparr>coordinator := Waiting (map fst (activePages s))\<rparr>
                     else if queue s = [] then s\<lparr>coordinator := Done, resultsSaved := resultsSaved s + 1\<rparr>
                     else s)
          else None
      | Resume \<Rightarrow>
          (case coordinator s of
             Waiting awaited \<Rightarrow>
               if list_ex (settled s) awaited then Some (s\<lparr>coordinator := Filling\<rparr>) else None
           | _ \<Rightarrow> None)
      | Extracted url p \<Rightarrow>
          (case map_of (activePages s) url of
             Some (depth, Extracting) \<Rightarrow> Some (extracted v url depth p s)
           | _ \<Rightarrow> None)
      | Submitted url urlBeforeSubmit urlAfterSubmit p \<Rightarrow>
          (case map_of (activePages s) url of
             Some (depth, Submitting f fs newLinks) \<Rightarrow>
               Some (submitted url depth fs newLinks urlBeforeSubmit urlAfterSubmit p s)
           | _ \<Rightarrow> None)
      | Crashed url \<Rightarrow>
          (case map_of (activePages s) url of
             Some (depth, Extracting) \<Rightarrow> Some (setPhase url depth (Returning []) s)
           | Some (depth, Submitting f fs newLinks) \<Rightarrow> Some (setPhase url depth (Returning []) s)
           | _ \<Rightarrow> None)
      | Returned url \<Rightarrow>
          (case map_of (activePages s) url of
             Some (depth, Returning newLinks) \<Rightarrow> Some (returned url depth newLinks s)
           | _ \<Rightarrow> None))"

text \<open>A run: the events in the order in which they happen.\<close>

fun run :: "version \<Rightarrow> event list \<Rightarrow> crawlState \<Rightarrow> crawlState option" where
  "run v [] s = Some s"
| "run v (e # es) s = (case step v e s of None \<Rightarrow> None | Some s' \<Rightarrow> run v es s')"

text \<open>The page URLs an event's extraction pass works with: the URL it was requested with
  and the live current URL.\<close>

fun passUrls :: "event \<Rightarrow> string list" where
  "passUrls (Extracted url p) = [url, pageUrl p]"
| "passUrls (Submitted url urlBeforeSubmit urlAfterSubmit p) = [urlAfterSubmit, pageUrl p]"
| "passUrls _ = []"


section \<open>Invariants and measures of the crawl\<close>

text \<open>What holds in every state of a run: the sessions are those of the log, the log is
  within the visited set and names no URL twice, depths are bounded, and the coordinator
  is done exactly when \<open>crawl\<close> has returned with nothing left.\<close>

definition crawlInv :: "crawlState \<Rightarrow> bool" where
  "crawlInv s \<longleftrightarrow>
     fst ` set (processed s) \<subseteq> set (visited s)
     \<and> distinct (map fst (processed s))
     \<and> (\<forall>x \<in> set (processed s). snd x \<le> MAX_DEPTH)
     \<and> (\<forall>x \<in> set (queue s). snd x \<le> MAX_DEPTH)
     \<and> (\<forall>x \<in> set (activePages s). (fst x, fst (snd x)) \<in> set (processed s))
     \<and> (coordinator s = Done \<longrightarrow> queue s = [] \<and> activePages s = [] \<and> resultsSaved s = 1)
     \<and> (coordinator s \<noteq> Done \<longrightarrow> resultsSaved s = 0)
     \<and> (\<forall>awaited. coordinator s = Waiting awaited \<longrightarrow> awaited \<noteq> [])"

text \<open>
  The measure of termination. An item of the queue and a session weigh a triple: the
  levels below them, how far the session is from returning, and the forms it has yet to
  submit. Every step of a session or of the dispatcher replaces one weight by smaller
  ones; the coordinator's own steps lower \<open>coordinatorWeight\<close>.
\<close>

definition queueWeight :: "string \<times> nat \<Rightarrow> nat \<times> nat \<times> nat" where
  "queueWeight x = (MAX_DEPTH + 1 - snd x, 3, 0)"

definition phaseWeight :: "phase \<Rightarrow> nat \<times> nat" where
  "phaseWeight ph = (case ph of Extracting \<Rightarrow> (2, 0)
     | Submitting f fs newLinks \<Rightarrow> (1, length fs + 1) | Returning newLinks \<Rightarrow> (0, 0))"

definition sessionWeight :: "string \<times> nat \<times> phase \<Rightarrow> nat \<times> nat \<times> nat" where
  "sessionWeight x = (MAX_DEPTH + 1 - fst (snd x), phaseWeight (snd (snd x)))"

definition stateWeight :: "crawlState \<Rightarrow> (nat \<times> nat \<times> nat) multiset" where
  "stateWeight s = mset (map queueWeight (queue s)) + mset (map sessionWeight (activePages s))"

definition coordinatorWeight :: "crawlState \<Rightarrow> nat" where
  "coordinatorWeight s =
     (case coordinator s of
        Filling \<Rightarrow> 1
      | Waiting awaited \<Rightarrow> if list_ex (settled s) awaited then 2 else 0
      | Done \<Rightarrow> 0)"

definition weightOrder :: "((nat \<times> nat \<times> nat) \<times> (nat \<times> nat \<times> nat)) set" where
  "weightOrder = less_than <*lex*> less_than <*lex*> less_than"

definition crawlOrder :: "(crawlState \<times> crawlState) set" where
  "crawlOrder = inv_image (mult weightOrder <*lex*> less_than) (\<lambda>s. (stateWeight s, coordinatorWeight s))"

text \<open>What the network observers have recorded when the initial pass returns.\<close>

definition observed :: "string \<Rightarrow> page \<Rightarrow> pageData" where
  "observed url p = foldl (onNetEvent url) emptyPageData (netEvents p)"

text \<open>The findings that only the parsed content and the probes can give.\<close>

definition domFindings :: "pageData \<Rightarrow> formDetails list \<times> string list \<times> string list" where
  "domFindings pd = (forms pd, jsFrameworks pd, reactComponents pd)"

text \<open>The crawler's same-origin test of a link against a page URL: the link starts with
  the origin of the page URL.\<close>

definition originPrefix :: "string \<Rightarrow> string \<Rightarrow> bool" where
  "originPrefix u l = (case parseURL u None of None \<Rightarrow> False | Some b \<Rightarrow> startsWith l (origin b))"


section \<open>A sample run\<close>

text \<open>
  A crawl of \<open>https://a.test/\<close>. The start page links to \<open>/a\<close> and has a login form;
  submitting the form navigates to \<open>/welcome\<close>, which links to \<open>/b\<close>. The navigation to
  \<open>/a\<close> fails; \<open>/b\<close> is an empty page.
\<close>

definition sampleStart :: string where
  "sampleStart = ''https://a.test/''"

definition samplePage0 :: page where
  "samplePage0 = pageWith ''https://a.test/''
     (emptyDom\<lparr>anchors := [anchor ''/a''],
               formEls := [formWith [(''action'', ''/login''), (''method'', ''post'')]]\<rparr>)"

definition samplePage1 :: page where
  "samplePage1 = pageWith ''https://a.test/welcome'' (emptyDom\<lparr>anchors := [anchor ''/b'']\<rparr>)"

definition failedPage :: "netEvent list \<Rightarrow> page" where
  "failedPage evs = \<lparr> netEvents = evs, gotoThrows = True, pageUrl = [],
     detectedFrameworks = None, reactComponentsArray = None, content = None \<rparr>"

definition samplePrefix :: "event list" where
  "samplePrefix = [Dispatch, Await, Extracted sampleStart samplePage0]"

definition sampleSubmit :: event where
  "sampleSubmit = Submitted sampleStart ''https://a.test/'' ''https://a.test/welcome'' samplePage1"

definition sampleSuffix :: "event list" where
  "sampleSuffix =
     [Returned sampleStart, Resume, Dispatch, Dispatch, Await,
      Extracted ''https://a.test/a'' (failedPage []), Returned ''https://a.test/a'',
      Extracted ''https://a.test/b'' (pageWith ''https://a.test/b'' emptyDom),
      Returned ''https://a.test/b'', Resume, Await]"

definition sampleRun :: "event list" where
  "sampleRun = samplePrefix @ [sampleSubmit] @ sampleSuffix"

text \<open>States of the sample run: before and after the form is submitted, with one session
  launched at depth 1 and one item queued, and at the end.\<close>

definition sampleForm :: formDetails where
  "sampleForm = \<lparr> furl = ''https://a.test/'', action = ''https://a.test/login'',
     formMethod = ''POST'', fid = [], fname = [], fclass = [], formFields = [] \<rparr>"

definition sampleState1 :: crawlState where
  "sampleState1 =
     \<lparr> visited = [''https://a.test/''],
       linksFound = [''https://a.test/a''],
       formsFound = [sampleForm],
       endpointsFound = [],
       reactComponentsFound = [],
       jsFrameworksDetected = [],
       requestsToReplicate = [],
       queue = [],
       activePages = [(''https://a.test/'', 0, Submitting sampleForm [] [''https://a.test/a''])],
       urlCounter = 1,
       coordinator = Waiting [''https://a.test/''],
       processed = [(''https://a.test/'', 0)],
       resultsSaved = 0 \<rparr>"

definition sampleState2 :: crawlState where
  "sampleState2 =
     \<lparr> visited = [''https://a.test/'', ''https://a.test/welcome''],
       linksFound = [''https://a.test/a'', ''https://a.test/b''],
       formsFound = [sampleForm],
       endpointsFound = [],
       reactComponentsFound = [],
       jsFrameworksDetected = [],
       requestsToReplicate = [],
       queue = [],
       activePages = [(''https://a.test/'', 0, Returning [''https://a.test/a'', ''https://a.test/b'', ''https://a.test/welcome''])],
       urlCounter = 1,
       coordinator = Waiting [''https://a.test/''],
       processed = [(''https://a.test/'', 0)],
       resultsSaved = 0 \<rparr>"

definition sampleMid :: crawlState where
  "sampleMid =
     \<lparr> visited = [''https://a.test/'', ''https://a.test/welcome'', ''https://a.test/a''],
       linksFound = [''https://a.test/a'', ''https://a.test/b''],
       formsFound = [sampleForm],
       endpointsFound = [],
       reactComponentsFound = [],
       jsFrameworksDetected = [],
       requestsToReplicate = [],
       queue = [(''https://a.test/b'', 1)],
       activePages = [(''https://a.test/a'', 1, Extracting)],
       urlCounter = 2,
       coordinator = Filling,
       processed = [(''https://a.test/'', 0), (''https://a.test/a'', 1)],
       resultsSaved = 0 \<rparr>"

definition sampleFinal :: crawlState where
  "sampleFinal =
     \<lparr> visited = [''https://a.test/'', ''https://a.test/welcome'', ''https://a.test/a'', ''https://a.test/b''],
       linksFound = [''https://a.test/a'', ''https://a.test/b''],
       formsFound = [sampleForm],
       endpointsFound = [],
       reactComponentsFound = [],
       jsFrameworksDetected = [],
       requestsToReplicate = [],
       queue = [],
       activePages = [],
       urlCounter = 3,
       coordinator = Done,
       processed = [(''https://a.test/'', 0), (''https://a.test/a'', 1), (''https://a.test/b'', 1)],
       resultsSaved = 1 \<rparr>"

text \<open>The request of a navigation to an API-shaped URL, and a page that links to another
  host whose name begins with the name of the page's host.\<close>

definition apiRequest :: requestData where
  "apiRequest = \<lparr> rurl = ''https://a.test/api/users'', rmethod = ''GET'', headers = [],
     postData = None, resourceType = ''document'' \<rparr>"

definition collidingPage :: page where
  "collidingPage = pageWith ''https://a.test/'' (emptyDom\<lparr>anchors := [anchor ''https://a.test.evil.com/z'']\<rparr>)"

definition collidingRun :: "event list" where
  "collidingRun =
     [Dispatch, Await, Extracted ''https://a.test/'' collidingPage, Returned ''https://a.test/'',
      Resume, Dispatch, Await, Extracted ''https://a.test.evil.com/z'' (failedPage []),
      Returned ''https://a.test.evil.com/z'', Resume, Await]"



text \<open>
  A crawl of \<open>https://a.test/\<close> whose start page links to \<open>/a\<close> and \<open>/b\<close>. The page \<open>/a\<close> has
  a form that navigates to \<open>/w\<close>, and the page \<open>/b\<close> links to \<open>/w\<close>. In \<open>raceRun\<close> the
  session for \<open>/b\<close> returns, and \<open>/w\<close> is dispatched, while the session for \<open>/a\<close> is in its
  form loop.
\<close>

definition racePage0 :: page where
  "racePage0 = pageWith ''https://a.test/'' (emptyDom\<lparr>anchors := [anchor ''/a'', anchor ''/b'']\<rparr>)"

definition racePageA :: page where
  "racePageA = pageWith ''https://a.test/a'' (emptyDom\<lparr>formEls := [formWith [(''action'', ''/go'')]]\<rparr>)"

definition racePageB :: page where
  "racePageB = pageWith ''https://a.test/b'' (emptyDom\<lparr>anchors := [anchor ''/w'']\<rparr>)"

definition racePageW :: page where
  "racePageW = pageWith ''https://a.test/w'' emptyDom"

definition raceForm :: formDetails where
  "raceForm = \<lparr> furl = ''https://a.test/a'', action = ''https://a.test/go'',
     formMethod = ''GET'', fid = [], fname = [], fclass = [], formFields = [] \<rparr>"

definition raceStart :: "event list" where
  "raceStart =
     [Dispatch, Await, Extracted ''https://a.test/'' racePage0, Returned ''https://a.test/'',
      Resume, Dispatch, Dispatch, Await, Extracted ''https://a.test/a'' racePageA]"

definition raceRun :: "event list" where
  "raceRun =
     [Extracted ''https://a.test/b'' racePageB, Returned ''https://a.test/b'', Resume, Dispatch]"

definition raceSubmit :: event where
  "raceSubmit = Submitted ''https://a.test/a'' ''https://a.test/a'' ''https://a.test/w'' racePageW"


section \<open>Basic facts\<close>

lemma set_setAdd: "set (setAdd xs x) = insert x (set xs)"
  by (auto simp: setAdd_def)

lemma set_setAddAll: "set (setAddAll xs ys) = set xs \<union> set ys"
  unfolding setAddAll_def by (induction ys arbitrary: xs) (auto simp: set_setAdd)

lemma distinct_setAdd: "distinct xs \<Longrightarrow> distinct (setAdd xs x)"
  by (auto simp: setAdd_def)

lemma takeWhile_append_stop: "\<not> P y \<Longrightarrow> takeWhile P (xs @ y # ys) = takeWhile P xs"
  by (induction xs) auto

lemma beforeHash_fragment: "beforeHash (cur @ CHR ''#'' # r) = beforeHash cur"
  by (simp add: beforeHash_def takeWhile_append_stop)

lemma startsWith_Cons: "startsWith s (c # p) \<longleftrightarrow> (\<exists>r. s = c # r \<and> startsWith r p)"
  by (cases s) auto

lemma startsWith_append: "startsWith (p @ r) p"
  by (induction p) auto



section \<open>Sensitive keys in JSON bodies\<close>

lemma markers_addLink: "markers (addLink l pd) = markers pd"
  by (simp add: markers_def addLink_def)

lemma markers_addEndpoint:
  "markers (addEndpoint e pd) = (if isMarker e then insert e (markers pd) else markers pd)"
  by (auto simp: markers_def addEndpoint_def set_setAdd)

lemma markers_jsonString:
  "markers (jsonString k v b pd) =
     (if sensitiveKey k then insert (sensitiveMarker k b) (markers pd) else markers pd)"
  by (simp add: jsonString_def Let_def markers_addLink markers_addEndpoint
      isMarker_def sensitiveMarker_def split: option.splits)

lemma jsonString_not_urlShaped:
  "\<not> urlShaped v \<Longrightarrow> \<not> urlShaped v' \<Longrightarrow> jsonString k v b pd = jsonString k v' b pd"
  by (simp add: jsonString_def)

lemma sameProps_Cons:
  "sameProps st ((k, v) # kvs) kvs' \<longleftrightarrow>
     (\<exists>v' r. kvs' = (k, v') # r \<and> sameProps st kvs r \<and> sameValue st k v v')"
  by (cases kvs') (auto simp: sameValue_def)

lemma sameItems_Cons:
  "sameItems st (v # vs) ys \<longleftrightarrow> (\<exists>v' r. ys = v' # r \<and> sameButSensitive st v v' \<and> sameItems st vs r)"
  by (cases ys) auto

lemma sameButSensitive_sameValue: "sameButSensitive st v v' \<Longrightarrow> sameValue st k v v'"
  by (cases v) (auto simp: sameValue_def)

lemma propStep_markers:
  assumes sv: "sameValue st k v v'" and m: "markers pd = markers pd'"
    and ih: "\<And>s. v \<noteq> JStr s \<Longrightarrow> \<forall>j' pd'. sameButSensitive st v j' \<longrightarrow> markers pd = markers pd' \<longrightarrow>
      markers (extractDataFromJson v b pd) = markers (extractDataFromJson j' b pd')"
  shows "markers (propStep k v b pd) = markers (propStep k v' b pd')"
proof (cases "\<exists>s. v = JStr s")
  case True
  then obtain s where v: "v = JStr s" by blast
  with sv obtain s' where "v' = JStr s'" by (auto simp: sameValue_def split: json.splits)
  with v m show ?thesis by (simp add: propStep_def markers_jsonString)
next
  case False
  then have nv: "\<And>s. v \<noteq> JStr s" by blast
  from sv nv have s: "sameButSensitive st v v'" by (cases v) (auto simp: sameValue_def)
  from s nv have nv': "\<And>s. v' \<noteq> JStr s" by (cases v) (auto split: json.splits)
  have e: "propStep k v b pd = extractDataFromJson v b pd" using nv by (cases v) (auto simp: propStep_def)
  have e': "propStep k v' b pd' = extractDataFromJson v' b pd'" using nv' by (cases v') (auto simp: propStep_def)
  from ih[OF nv] s m show ?thesis unfolding e e' by blast
qed

lemma same_markers:
  "\<forall>j' pd'. sameButSensitive st j j' \<longrightarrow> markers pd = markers pd' \<longrightarrow>
      markers (extractDataFromJson j b pd) = markers (extractDataFromJson j' b pd')"
  "\<forall>kvs' pd'. sameProps st kvs kvs' \<longrightarrow> markers pd = markers pd' \<longrightarrow>
      markers (walkProps kvs b pd) = markers (walkProps kvs' b pd')"
  "\<forall>ys pd'. sameItems st xs ys \<longrightarrow> markers pd = markers pd' \<longrightarrow>
      markers (walkItems i xs b pd) = markers (walkItems i ys b pd')"
proof (induction j b pd and kvs b pd and i xs b pd rule: extractDataFromJson_walkProps_walkItems.induct)
  case (1 kvs b pd)
  then show ?case by (auto split: json.splits)
next
  case (2 xs b pd)
  then show ?case by (auto split: json.splits)
next
  case (8 k v kvs b pd)
  have ih: "\<And>s. v \<noteq> JStr s \<Longrightarrow> \<forall>j' pd'. sameButSensitive st v j' \<longrightarrow> markers pd = markers pd' \<longrightarrow>
      markers (extractDataFromJson v b pd) = markers (extractDataFromJson j' b pd')"
    using "8.IH"(1-5) by (cases v) simp_all
  show ?case
  proof (intro allI impI)
    fix kvs' pd'
    assume s: "sameProps st ((k, v) # kvs) kvs'" and m: "markers pd = markers pd'"
    from s obtain v' r where kvs': "kvs' = (k, v') # r" and r: "sameProps st kvs r"
      and vv: "sameValue st k v v'"
      unfolding sameProps_Cons by blast
    have "markers (propStep k v b pd) = markers (propStep k v' b pd')"
      using vv m ih by (rule propStep_markers)
    with "8.IH"(6) r show "markers (walkProps ((k, v) # kvs) b pd) = markers (walkProps kvs' b pd')"
      unfolding kvs' by (simp add: propStep_def)
  qed
next
  case (10 i v vs b pd)
  have ih: "\<And>s. v \<noteq> JStr s \<Longrightarrow> \<forall>j' pd'. sameButSensitive st v j' \<longrightarrow> markers pd = markers pd' \<longrightarrow>
      markers (extractDataFromJson v b pd) = markers (extractDataFromJson j' b pd')"
    using "10.IH"(1-5) by (cases v) simp_all
  show ?case
  proof (intro allI impI)
    fix ys pd'
    assume s: "sameItems st (v # vs) ys" and m: "markers pd = markers pd'"
    from s obtain v' r where ys: "ys = v' # r" and r: "sameItems st vs r"
      and vv: "sameButSensitive st v v'"
      unfolding sameItems_Cons by blast
    have "markers (propStep (showNat i) v b pd) = markers (propStep (showNat i) v' b pd')"
      using sameButSensitive_sameValue[OF vv] m ih by (rule propStep_markers)
    with "10.IH"(6) r show "markers (walkItems i (v # vs) b pd) = markers (walkItems i ys b pd')"
      unfolding ys by (simp add: propStep_def)
  qed
qed simp_all

lemma propStep_strict:
  assumes sv: "sameValue True k v v'"
    and ih: "\<And>s. v \<noteq> JStr s \<Longrightarrow> \<forall>j'. sameButSensitive True v j' \<longrightarrow>
      extractDataFromJson v b pd = extractDataFromJson j' b pd"
  shows "propStep k v b pd = propStep k v' b pd"
proof (cases "\<exists>s. v = JStr s")
  case True
  then obtain s where v: "v = JStr s" by blast
  with sv obtain s' where "v' = JStr s'" "s = s' \<or> (\<not> urlShaped s \<and> \<not> urlShaped s')"
    by (auto simp: sameValue_def split: json.splits)
  with v show ?thesis using jsonString_not_urlShaped[of s s' k b pd] by (auto simp: propStep_def)
next
  case False
  then have nv: "\<And>s. v \<noteq> JStr s" by blast
  from sv nv have s: "sameButSensitive True v v'" by (cases v) (auto simp: sameValue_def)
  from s nv have nv': "\<And>s. v' \<noteq> JStr s" by (cases v) (auto split: json.splits)
  have e: "propStep k v b pd = extractDataFromJson v b pd" using nv by (cases v) (auto simp: propStep_def)
  have e': "propStep k v' b pd = extractDataFromJson v' b pd" using nv' by (cases v') (auto simp: propStep_def)
  from ih[OF nv] s show ?thesis unfolding e e' by blast
qed

lemma same_strict:
  "\<forall>j'. sameButSensitive True j j' \<longrightarrow> extractDataFromJson j b pd = extractDataFromJson j' b pd"
  "\<forall>kvs'. sameProps True kvs kvs' \<longrightarrow> walkProps kvs b pd = walkProps kvs' b pd"
  "\<forall>ys. sameItems True xs ys \<longrightarrow> walkItems i xs b pd = walkItems i ys b pd"
proof (induction j b pd and kvs b pd and i xs b pd rule: extractDataFromJson_walkProps_walkItems.induct)
  case (1 kvs b pd)
  then show ?case by (auto split: json.splits)
next
  case (2 xs b pd)
  then show ?case by (auto split: json.splits)
next
  case (8 k v kvs b pd)
  have ih: "\<And>s. v \<noteq> JStr s \<Longrightarrow> \<forall>j'. sameButSensitive True v j' \<longrightarrow>
      extractDataFromJson v b pd = extractDataFromJson j' b pd"
    using "8.IH"(1-5) by (cases v) simp_all
  show ?case
  proof (intro allI impI)
    fix kvs'
    assume s: "sameProps True ((k, v) # kvs) kvs'"
    from s obtain v' r where kvs': "kvs' = (k, v') # r" and r: "sameProps True kvs r"
      and vv: "sameValue True k v v'"
      unfolding sameProps_Cons by blast
    have "propStep k v b pd = propStep k v' b pd"
      using vv ih by (rule propStep_strict)
    with "8.IH"(6) r show "walkProps ((k, v) # kvs) b pd = walkProps kvs' b pd"
      unfolding kvs' by (simp add: propStep_def)
  qed
next
  case (10 i v vs b pd)
  have ih: "\<And>s. v \<noteq> JStr s \<Longrightarrow> \<forall>j'. sameButSensitive True v j' \<longrightarrow>
      extractDataFromJson v b pd = extractDataFromJson j' b pd"
    using "10.IH"(1-5) by (cases v) simp_all
  show ?case
  proof (intro allI impI)
    fix ys
    assume s: "sameItems True (v # vs) ys"
    from s obtain v' r where ys: "ys = v' # r" and r: "sameItems True vs r"
      and vv: "sameButSensitive True v v'"
      unfolding sameItems_Cons by blast
    have "propStep (showNat i) v b pd = propStep (showNat i) v' b pd"
      using sameButSensitive_sameValue[OF vv] ih by (rule propStep_strict)
    with "10.IH"(6) r show "walkItems i (v # vs) b pd = walkItems i ys b pd"
      unfolding ys by (simp add: propStep_def)
  qed
qed simp_all

text \<open>
  C6, as stated, fails: a string stored under a sensitive key is still tested for the shape
  of a URL, and a URL-shaped value of another origin is recorded as a
  \<open>[JSON_API_RESPONSE]\<close> endpoint. Two bodies that differ only in the value of \<open>session\<close>
  give different endpoint entries.
\<close>

theorem C6_counterexample:
  "sameButSensitive False
     (JObj [(''session'', JStr ''https://x.test/a'')])
     (JObj [(''session'', JStr ''https://x.test/b'')])
   \<and> set (endpoints (extractDataFromJson (JObj [(''session'', JStr ''https://x.test/a'')])
          ''https://a.test/'' emptyPageData))
     \<noteq> set (endpoints (extractDataFromJson (JObj [(''session'', JStr ''https://x.test/b'')])
          ''https://a.test/'' emptyPageData))"
  by code_simp

text \<open>
  C6, amended: for two JSON bodies that are identical except for the string values stored
  under keys whose lower-cased name contains \<open>token\<close> or \<open>session\<close>, the walk records the
  same sensitive-key markers (the marker is built from the key and the page URL only);
  and when the values that differ are not URL-shaped (do not start with \<open>/\<close>, \<open>http://\<close>
  or \<open>https://\<close>), the walk records exactly the same links and endpoint entries.
\<close>

theorem C6_marker_noninterference:
  "(sameButSensitive False j j' \<longrightarrow>
      markers (extractDataFromJson j b pd) = markers (extractDataFromJson j' b pd))
   \<and> (sameButSensitive True j j' \<longrightarrow>
      extractDataFromJson j b pd = extractDataFromJson j' b pd)"
proof (intro conjI impI)
  assume "sameButSensitive False j j'"
  then show "markers (extractDataFromJson j b pd) = markers (extractDataFromJson j' b pd)"
    using same_markers(1) by blast
next
  assume "sameButSensitive True j j'"
  then show "extractDataFromJson j b pd = extractDataFromJson j' b pd"
    using same_strict(1) by blast
qed

theorem C6_marker_noninterference_witness:
  "sameButSensitive False
     (JObj [(''session'', JStr ''https://x.test/a'')])
     (JObj [(''session'', JStr ''https://x.test/b'')])
   \<and> markers (extractDataFromJson (JObj [(''session'', JStr ''https://x.test/a'')])
          ''https://a.test/'' emptyPageData)
     = markers (extractDataFromJson (JObj [(''session'', JStr ''https://x.test/b'')])
          ''https://a.test/'' emptyPageData)
   \<and> sameButSensitive True
     (JObj [(''csrfToken'', JStr ''abc''), (''items'', JArr [JStr ''/p''])])
     (JObj [(''csrfToken'', JStr ''xyz''), (''items'', JArr [JStr ''/p''])])
   \<and> extractDataFromJson (JObj [(''csrfToken'', JStr ''abc''), (''items'', JArr [JStr ''/p''])])
          ''https://a.test/'' emptyPageData
     = extractDataFromJson (JObj [(''csrfToken'', JStr ''xyz''), (''items'', JArr [JStr ''/p''])])
          ''https://a.test/'' emptyPageData"
proof -
  have a: "sameButSensitive False
     (JObj [(''session'', JStr ''https://x.test/a'')])
     (JObj [(''session'', JStr ''https://x.test/b'')])"
    by code_simp
  have b: "sameButSensitive True
     (JObj [(''csrfToken'', JStr ''abc''), (''items'', JArr [JStr ''/p''])])
     (JObj [(''csrfToken'', JStr ''xyz''), (''items'', JArr [JStr ''/p''])])"
    by code_simp
  show ?thesis
    using a b
      C6_marker_noninterference[of "JObj [(''session'', JStr ''https://x.test/a'')]"
        "JObj [(''session'', JStr ''https://x.test/b'')]" "''https://a.test/''" emptyPageData]
      C6_marker_noninterference[of "JObj [(''csrfToken'', JStr ''abc''), (''items'', JArr [JStr ''/p''])]"
        "JObj [(''csrfToken'', JStr ''xyz''), (''items'', JArr [JStr ''/p''])]" "''https://a.test/''" emptyPageData]
    by blast
qed

section \<open>Links and forms\<close>

lemma anchorLink_fragment:
  "startsWith href ''#'' \<Longrightarrow> anchorLink cur base href = Some (beforeHash cur)"
  by (auto simp: anchorLink_def startsWith_Cons beforeHash_fragment)

lemma anchorLink_reference:
  "href \<noteq> [] \<Longrightarrow> \<not> startsWith href ''#'' \<Longrightarrow> \<not> startsWith href ''javascript:'' \<Longrightarrow>
   anchorLink cur base href = map_option (\<lambda>u. beforeHash (toString u)) (parseURL href (Some base))"
  by (simp add: anchorLink_def)

lemma links_linkStep:
  "set (links (linkStep cur base pd el)) =
      set (links pd) \<union> {l. \<exists>href. attr el ''href'' = Some href
        \<and> anchorLink cur base href = Some l \<and> startsWith l (origin base)}"
  by (auto simp: linkStep_def addLink_def set_setAdd split: option.splits)

lemma links_extractLinks:
  "set (links (extractLinks cur base els pd)) =
     set (links pd) \<union> {l. \<exists>el href. el \<in> set els \<and> attr el ''href'' = Some href
        \<and> anchorLink cur base href = Some l \<and> startsWith l (origin base)}"
  unfolding extractLinks_def
proof (induction els arbitrary: pd)
  case Nil
  show ?case by simp
next
  case (Cons el els)
  show ?case unfolding foldl_Cons Cons links_linkStep by auto
qed

lemma links_extractForms: "links (fst (extractForms bv url dflt base fes pd)) = links pd"
  by (induction fes arbitrary: pd) (auto split: option.splits)

lemma links_matchStep: "links (matchStep rel base i pd m) = links pd"
  by (auto simp: matchStep_def addEndpoint_def Let_def split: prod.splits option.splits)

lemma links_foldl_keep:
  assumes "\<And>pd x. links (f pd x) = links pd"
  shows "links (foldl f pd xs) = links pd"
  using assms by (induction xs arbitrary: pd) auto

lemma links_patternStep: "links (patternStep rel base script pd ip) = links pd"
  by (cases ip) (simp add: patternStep_def links_foldl_keep links_matchStep)

lemma links_scriptStep: "links (scriptStep rel base pd script) = links pd"
  by (simp add: scriptStep_def links_foldl_keep links_patternStep)

lemma links_extractScripts: "links (extractScripts rel base scripts pd) = links pd"
  by (simp add: extractScripts_def links_foldl_keep links_scriptStep)

lemma links_resourceStep: "links (resourceStep base pd el) = links pd"
  by (auto simp: resourceStep_def addEndpoint_def Let_def split: option.splits)

lemma links_extractResources: "links (extractResources base els pd) = links pd"
  by (simp add: extractResources_def links_foldl_keep links_resourceStep)

lemma links_extractContent:
  "links (extractContent later url cur base d pd) = links (extractLinks cur base (anchors d) pd)"
  using links_extractForms[of "\<not> later" url cur base "formEls d" "extractLinks cur base (anchors d) pd"]
  by (auto simp: extractContent_def links_extractResources links_extractScripts split: prod.splits)

lemma links_probeFrameworks: "links (fst (probeFrameworks p pd)) = links pd"
  by (auto simp: probeFrameworks_def Let_def split: option.splits)

lemma snd_probeFrameworks: "snd (probeFrameworks p pd) = snd (probeFrameworks p emptyPageData)"
  by (auto simp: probeFrameworks_def Let_def split: option.splits)

lemma extractInfo_content:
  assumes "parseURL url None \<noteq> None" and "reachesContent p init"
    and "parseURL (pageUrl p) None = Some base" and "content p = Some d"
  shows "extractInfo url p init =
     Some (extractContent True url (pageUrl p) base d
       (fst (probeFrameworks p (if init then foldl (onNetEvent url) emptyPageData (netEvents p)
                                else emptyPageData))))"
proof -
  let ?pd0 = "if init then foldl (onNetEvent url) emptyPageData (netEvents p) else emptyPageData"
  obtain pd1 pr where pf: "probeFrameworks p ?pd0 = (pd1, pr)" by (cases "probeFrameworks p ?pd0")
  have "pr" using assms(2) snd_probeFrameworks[of p ?pd0] pf by (simp add: reachesContent_def)
  with assms pf show ?thesis
    by (auto simp: extractInfo_def reachesContent_def Let_def split: option.splits)
qed

lemma links_onRequest: "links (onRequest rq pd) = links pd"
  by (simp add: onRequest_def addEndpoint_def Let_def)

lemma formDetailsOf_method:
  "formDetailsOf url dflt base fe = Some fd \<Longrightarrow>
     formMethod fd = toUpperCase (orElse (attr (formEl fe) ''method'') ''GET'')"
  by (auto simp: formDetailsOf_def Let_def split: option.splits if_splits)

lemma toUpperCase_GET: "toUpperCase ''GET'' = ''GET''"
  by (simp add: toUpperCase_def upperChar_def isLower_def code_def)

lemma formDetailsOf_no_method:
  "formDetailsOf url dflt base fe = Some fd \<Longrightarrow> attr (formEl fe) ''method'' = None \<Longrightarrow>
     formMethod fd = ''GET''"
  by (simp add: formDetailsOf_method orElse_def toUpperCase_GET)

lemma formDetailsOf_no_action:
  "formDetailsOf url dflt base fe = Some fd \<Longrightarrow> attr (formEl fe) ''action'' = None \<Longrightarrow>
     startsWith dflt ''http'' \<Longrightarrow> action fd = dflt"
  by (auto simp: formDetailsOf_def Let_def orElse_def split: option.splits if_splits)

lemma formDetailsOf_action:
  "formDetailsOf url dflt base fe = Some fd \<Longrightarrow> attr (formEl fe) ''action'' = Some a \<Longrightarrow> a \<noteq> [] \<Longrightarrow>
     action fd = (if startsWith a ''http'' then a else toString (the (parseURL a (Some base))))"
  by (auto simp: formDetailsOf_def Let_def orElse_def split: option.splits if_splits)

text \<open>The later version resolves every anchor against the live current URL: a bare
  fragment gives the current URL without its fragment, any other reference the
  resolved URL without its fragment; either is stored when it starts with the origin
  of the current URL.\<close>

lemma later_links_against_current:
  assumes "parseURL url None \<noteq> None" and "reachesContent p init"
    and "parseURL (pageUrl p) None = Some base" and "content p = Some d"
    and "el \<in> set (anchors d)" and "attr el ''href'' = Some href"
    and "anchorLink (pageUrl p) base href = Some l" and "startsWith l (origin base)"
  shows "\<exists>pd. extractInfo url p init = Some pd \<and> l \<in> set (links pd)"
  using assms
  by (auto simp: extractInfo_content links_extractContent links_extractLinks)

text \<open>
  C7 holds for the later version of the crawler (lemmas \<open>anchorLink_fragment\<close>,
  \<open>anchorLink_reference\<close>, \<open>later_links_against_current\<close>), but not in every code path:
  \<open>extractInfo\<close> of \<open>advanced-crawler.js\<close> appends a bare fragment to the requested URL and
  resolves references against it. For a request of \<open>https://a.test/q/r/start\<close> that was
  redirected to \<open>https://a.test/p/x\<close>, the anchors \<open>../y\<close> and \<open>#frag\<close> are stored as
  \<open>https://a.test/q/y\<close> and \<open>https://a.test/q/r/start\<close>; the later version stores
  \<open>https://a.test/y\<close> and \<open>https://a.test/p/x\<close>.
\<close>

theorem C7_advanced_resolves_against_requested_url:
  "map_option links (extractInfo0 ''https://a.test/q/r/start''
      (pageWith ''https://a.test/p/x'' (emptyDom\<lparr>anchors := [anchor ''../y'', anchor ''#frag'']\<rparr>)))
     = Some [''https://a.test/q/y'', ''https://a.test/q/r/start'']
   \<and> map_option links (extractInfo ''https://a.test/q/r/start''
      (pageWith ''https://a.test/p/x'' (emptyDom\<lparr>anchors := [anchor ''../y'', anchor ''#frag'']\<rparr>)) True)
     = Some [''https://a.test/y'', ''https://a.test/p/x'']"
  by code_simp

text \<open>
  C9: the method defaults to \<open>GET\<close> and is upper-cased (\<open>formDetailsOf_method\<close>,
  \<open>formDetailsOf_no_method\<close>), and a missing action is the default action
  (\<open>formDetailsOf_no_action\<close>). But an action is taken for absolute, and recorded as it is,
  whenever it starts with \<open>http\<close>: the relative action \<open>httpdocs/login.php\<close> on the page
  \<open>https://a.test/p/x\<close> is recorded unresolved, where the URL class resolves it to
  \<open>https://a.test/p/httpdocs/login.php\<close>. And the default action of \<open>advanced-crawler.js\<close>
  is the requested URL, not the current one.
\<close>

theorem C9_relative_action_recorded_unresolved:
  "map_option (map action \<circ> forms) (extractInfo ''https://a.test/p/x''
      (pageWith ''https://a.test/p/x''
         (emptyDom\<lparr>formEls := [formWith [(''action'', ''httpdocs/login.php'')]]\<rparr>)) True)
     = Some [''httpdocs/login.php'']
   \<and> resolveURL ''httpdocs/login.php'' ''https://a.test/p/x''
     = Some ''https://a.test/p/httpdocs/login.php''
   \<and> map_option (map action \<circ> forms) (extractInfo0 ''https://a.test/old''
      (pageWith ''https://a.test/p/x'' (emptyDom\<lparr>formEls := [formWith []]\<rparr>)))
     = Some [''https://a.test/old'']"
  by code_simp

section \<open>Inline-script endpoints\<close>






















section \<open>Resolving the endpoints of the specification\<close>



lemma tupleOrigin_not_file: "tupleOrigin sch \<Longrightarrow> sch \<noteq> ''file'' \<and> isSpecial sch"
  by (auto simp: tupleOrigin_def isSpecial_def defaultPort_def)


lemma parseAuthority_shape:
  "parseAuthority sch s frag = Some u \<Longrightarrow> scheme u = sch \<and> \<not> opaque u \<and> host u \<noteq> None"
  by (auto simp: parseAuthority_def Let_def split: prod.splits option.splits if_splits)

lemma parseFile_shape:
  "parseFile base s frag = Some u \<Longrightarrow> scheme u = ''file''"
  by (auto simp: parseFile_def fileHost_def fileURL_def Let_def
      split: prod.splits option.splits if_splits list.splits)

lemma parseURL_tupleOrigin:
  assumes "parseURL s None = Some u" "tupleOrigin (scheme u)"
  shows "\<not> opaque u \<and> host u \<noteq> None"
proof -
  obtain t frag where sf: "splitFirst (\<lambda>c. c = CHR ''#'') (prepare s) = (t, frag)"
    by (cases "splitFirst (\<lambda>c. c = CHR ''#'') (prepare s)")
  show ?thesis
  proof (cases "splitScheme t")
    case None
    with assms sf show ?thesis by (simp add: parseURL_def)
  next
    case (Some a)
    obtain sch r where a: "a = (sch, r)" by (cases a)
    consider (fileScheme) "sch = ''file''" | (special) "sch \<noteq> ''file''" "isSpecial sch"
      | (other) "\<not> isSpecial sch" unfolding isSpecial_def by blast
    then show ?thesis
    proof cases
      case fileScheme
      with assms(1) sf Some a have "parseFile None r frag = Some u" by (simp add: parseURL_def)
      from parseFile_shape[OF this] assms(2) tupleOrigin_not_file show ?thesis by auto
    next
      case special
      with assms(1) sf Some a have "parseAuthority sch (dropWhile (isSlash True) r) frag = Some u"
        by (simp add: parseURL_def)
      then show ?thesis using parseAuthority_shape by blast
    next
      case other
      then have "sch \<noteq> ''file''" by (auto simp: isSpecial_def)
      with other assms(1) sf Some a have "scheme u = sch"
        using parseAuthority_shape[of sch "drop 2 r" frag u]
        by (auto simp: parseURL_def split: if_splits prod.splits)
      with other assms(2) tupleOrigin_not_file show ?thesis by auto
    qed
  qed
qed









section \<open>The steps of the crawl\<close>

lemma run_append:
  "run v (xs @ ys) s = (case run v xs s of None \<Rightarrow> None | Some s' \<Rightarrow> run v ys s')"
  by (induction xs arbitrary: s) (auto split: option.splits)

lemma run_invariant:
  assumes "run v evs s0 = Some s" and "I s0"
    and "\<And>e s s'. I s \<Longrightarrow> step v e s = Some s' \<Longrightarrow> I s'"
  shows "I s"
  using assms(1,2)
proof (induction evs arbitrary: s0)
  case Nil
  then show ?case by simp
next
  case (Cons e es)
  from Cons.prems(1) obtain s1 where 1: "step v e s0 = Some s1" and 2: "run v es s1 = Some s"
    by (auto split: option.splits)
  from assms(3)[OF Cons.prems(2) 1] have "I s1" .
  from Cons.IH[OF 2 this] show ?case .
qed

text \<open>What each event does, case by case.\<close>

lemma stepE:
  assumes "step v e s = Some s'"
  obtains
    (Dispatch) "e = Dispatch" "coordinator s = Filling" "queue s \<noteq> []"
      "length (activePages s) < MAX_CONCURRENT_PAGES" "s' = dispatch s"
  | (AwaitRace) "e = Await" "coordinator s = Filling" "activePages s \<noteq> []"
      "s' = s\<lparr>coordinator := Waiting (map fst (activePages s))\<rparr>"
  | (AwaitDone) "e = Await" "coordinator s = Filling" "activePages s = []" "queue s = []"
      "s' = s\<lparr>coordinator := Done, resultsSaved := resultsSaved s + 1\<rparr>"
  | (Resume) awaited where "e = Resume" "coordinator s = Waiting awaited"
      "list_ex (settled s) awaited" "s' = s\<lparr>coordinator := Filling\<rparr>"
  | (Extracted) url p depth where "e = Extracted url p"
      "map_of (activePages s) url = Some (depth, Extracting)" "s' = extracted v url depth p s"
  | (Submitted) url before after p depth f fs newLinks where "e = Submitted url before after p"
      "map_of (activePages s) url = Some (depth, Submitting f fs newLinks)"
      "s' = submitted url depth fs newLinks before after p s"
  | (Crashed) url depth ph where "e = Crashed url" "map_of (activePages s) url = Some (depth, ph)"
      "\<forall>nl. ph \<noteq> Returning nl" "s' = setPhase url depth (Returning []) s"
  | (Returned) url depth newLinks where "e = Returned url"
      "map_of (activePages s) url = Some (depth, Returning newLinks)"
      "s' = returned url depth newLinks s"
proof (cases e)
  case Dispatch
  with assms that(1) show ?thesis by (auto simp: step_def split: if_splits)
next
  case Await
  show ?thesis
  proof (cases "activePages s = []")
    case True
    with assms Await have "coordinator s = Filling" "queue s = []"
      by (auto simp: step_def MAX_CONCURRENT_PAGES_def split: if_splits)
    with assms Await True that(3) show ?thesis by (auto simp: step_def split: if_splits)
  next
    case False
    with assms Await that(2) show ?thesis by (auto simp: step_def split: if_splits)
  qed
next
  case Resume
  with assms that(4) show ?thesis by (auto simp: step_def split: coordinator.splits if_splits)
next
  case (Extracted url p)
  with assms that(5) show ?thesis
    by (auto simp: step_def split: option.splits phase.splits)
next
  case (Submitted url before after p)
  with assms that(6) show ?thesis
    by (auto simp: step_def split: option.splits phase.splits)
next
  case (Crashed url)
  with assms that(7) show ?thesis
    by (auto simp: step_def split: option.splits phase.splits)
next
  case (Returned url)
  with assms that(8) show ?thesis
    by (auto simp: step_def split: option.splits phase.splits)
qed

text \<open>\<open>dispatch\<close> either drops the head of the queue or launches a session for it.\<close>

lemma dispatch_drop:
  "queue s = (url, depth) # q \<Longrightarrow> url \<in> set (visited s) \<or> MAX_DEPTH < depth \<Longrightarrow>
     dispatch s = s\<lparr>queue := q\<rparr>"
  by (simp add: dispatch_def)

lemma dispatch_launch:
  "queue s = (url, depth) # q \<Longrightarrow> url \<notin> set (visited s) \<Longrightarrow> depth \<le> MAX_DEPTH \<Longrightarrow>
     dispatch s = s\<lparr>queue := q, urlCounter := urlCounter s + 1,
                    visited := visited s @ [url],
                    processed := processed s @ [(url, depth)],
                    activePages := AList.update url (depth, Extracting) (activePages s)\<rparr>"
  by (simp add: dispatch_def processStart_def setAdd_def Let_def)

lemma extracted_frame:
  "\<exists>ph. ph \<noteq> Extracting
     \<and> activePages (extracted v url depth p s) = AList.update url (depth, ph) (activePages s)"
  "queue (extracted v url depth p s) = queue s"
  "visited (extracted v url depth p s) = visited s"
  "processed (extracted v url depth p s) = processed s"
  "coordinator (extracted v url depth p s) = coordinator s"
  "resultsSaved (extracted v url depth p s) = resultsSaved s"
  by (auto simp: extracted_def setPhase_def mergeInitial_def Let_def split: option.splits list.splits)

lemma mergePostSubmit_frame:
  "mergePostSubmit pd nl s = (s1, nl1) \<Longrightarrow>
     queue s1 = queue s \<and> visited s1 = visited s \<and> processed s1 = processed s
     \<and> coordinator s1 = coordinator s \<and> resultsSaved s1 = resultsSaved s
     \<and> activePages s1 = activePages s"
  by (auto simp: mergePostSubmit_def split: prod.splits)

lemma formNavigation_frame:
  "formNavigation url before after nl s = Some (s2, nl2) \<Longrightarrow>
     queue s2 = queue s \<and> set (visited s) \<subseteq> set (visited s2) \<and> set (visited s2) \<subseteq> insert after (set (visited s))
     \<and> processed s2 = processed s
     \<and> coordinator s2 = coordinator s \<and> resultsSaved s2 = resultsSaved s
     \<and> activePages s2 = activePages s"
  by (auto simp: formNavigation_def set_setAdd split: option.splits if_splits)

lemma submitted_frame:
  "\<exists>ph. (ph = Returning [] \<or> (\<exists>nl. ph = Returning nl) \<or> (\<exists>g gs nl. fs = g # gs \<and> ph = Submitting g gs nl))
     \<and> activePages (submitted url depth fs newLinks before after p s)
         = AList.update url (depth, ph) (activePages s)"
  "queue (submitted url depth fs newLinks before after p s) = queue s"
  "set (visited s) \<subseteq> set (visited (submitted url depth fs newLinks before after p s))"
  "set (visited (submitted url depth fs newLinks before after p s)) \<subseteq> insert after (set (visited s))"
  "processed (submitted url depth fs newLinks before after p s) = processed s"
  "coordinator (submitted url depth fs newLinks before after p s) = coordinator s"
  "resultsSaved (submitted url depth fs newLinks before after p s) = resultsSaved s"
proof -
  let ?s' = "submitted url depth fs newLinks before after p s"
  have "(\<exists>ph. (ph = Returning [] \<or> (\<exists>nl. ph = Returning nl) \<or> (\<exists>g gs nl. fs = g # gs \<and> ph = Submitting g gs nl))
     \<and> activePages ?s' = AList.update url (depth, ph) (activePages s))
    \<and> queue ?s' = queue s \<and> set (visited s) \<subseteq> set (visited ?s')
    \<and> set (visited ?s') \<subseteq> insert after (set (visited s))
    \<and> processed ?s' = processed s \<and> coordinator ?s' = coordinator s \<and> resultsSaved ?s' = resultsSaved s"
  proof (cases "extractInfo after p False")
    case None
    then show ?thesis by (auto simp: submitted_def setPhase_def)
  next
    case (Some pd)
    obtain s1 nl1 where m: "mergePostSubmit pd newLinks s = (s1, nl1)"
      by (cases "mergePostSubmit pd newLinks s")
    note f1 = mergePostSubmit_frame[OF m]
    show ?thesis
    proof (cases "formNavigation url before after nl1 s1")
      case None
      with Some m f1 show ?thesis by (auto simp: submitted_def setPhase_def)
    next
      case (Some a)
      obtain s2 nl2 where a: "a = (s2, nl2)" by (cases a)
      note f2 = formNavigation_frame[OF Some[unfolded a]]
      from \<open>extractInfo after p False = Some pd\<close> m Some a f1 f2 show ?thesis
        by (cases fs) (auto simp: submitted_def setPhase_def)
    qed
  qed
  then show
    "\<exists>ph. (ph = Returning [] \<or> (\<exists>nl. ph = Returning nl) \<or> (\<exists>g gs nl. fs = g # gs \<and> ph = Submitting g gs nl))
     \<and> activePages ?s' = AList.update url (depth, ph) (activePages s)"
    "queue ?s' = queue s" "set (visited s) \<subseteq> set (visited ?s')"
    "set (visited ?s') \<subseteq> insert after (set (visited s))"
    "processed ?s' = processed s" "coordinator ?s' = coordinator s" "resultsSaved ?s' = resultsSaved s"
    by blast+
qed

lemma enqueue_frame:
  "visited (enqueue d s l) = visited s" "processed (enqueue d s l) = processed s"
  "coordinator (enqueue d s l) = coordinator s" "resultsSaved (enqueue d s l) = resultsSaved s"
  "activePages (enqueue d s l) = activePages s"
  by (auto simp: enqueue_def)

lemma foldl_enqueue:
  "visited (foldl (enqueue d) s ls) = visited s \<and> processed (foldl (enqueue d) s ls) = processed s
   \<and> coordinator (foldl (enqueue d) s ls) = coordinator s
   \<and> resultsSaved (foldl (enqueue d) s ls) = resultsSaved s
   \<and> activePages (foldl (enqueue d) s ls) = activePages s
   \<and> (\<exists>new. queue (foldl (enqueue d) s ls) = queue s @ map (\<lambda>l. (l, d + 1)) new
         \<and> (new \<noteq> [] \<longrightarrow> d + 1 \<le> MAX_DEPTH))"
proof (induction ls arbitrary: s)
  case Nil
  show ?case by (auto intro: exI[of _ "[]"])
next
  case (Cons l ls)
  from Cons[of "enqueue d s l"] obtain new where
    new: "queue (foldl (enqueue d) (enqueue d s l) ls) = queue (enqueue d s l) @ map (\<lambda>l. (l, d + 1)) new"
      "new \<noteq> [] \<longrightarrow> d + 1 \<le> MAX_DEPTH"
    by blast
  have "\<exists>new'. queue (foldl (enqueue d) (enqueue d s l) ls) = queue s @ map (\<lambda>l. (l, d + 1)) new'
         \<and> (new' \<noteq> [] \<longrightarrow> d + 1 \<le> MAX_DEPTH)"
  proof (cases "queue (enqueue d s l) = queue s")
    case True
    with new show ?thesis by auto
  next
    case False
    then have "queue (enqueue d s l) = queue s @ [(l, d + 1)]" "d + 1 \<le> MAX_DEPTH"
      by (auto simp: enqueue_def split: if_splits)
    with new show ?thesis by (auto intro!: exI[of _ "l # new"])
  qed
  with Cons[of "enqueue d s l"] show ?case by (simp add: enqueue_frame)
qed

lemma returned_frame:
  "visited (returned url d nl s) = visited s" "processed (returned url d nl s) = processed s"
  "coordinator (returned url d nl s) = coordinator s" "resultsSaved (returned url d nl s) = resultsSaved s"
  "activePages (returned url d nl s) = AList.delete url (activePages s)"
  "\<exists>new. queue (returned url d nl s) = queue s @ map (\<lambda>l. (l, d + 1)) new
         \<and> (new \<noteq> [] \<longrightarrow> d + 1 \<le> MAX_DEPTH)"
  using foldl_enqueue[of d s nl] by (auto simp: returned_def Let_def)

lemma set_update_subset: "set (AList.update k v al) \<subseteq> insert (k, v) (set al)"
  by (induction al) auto

lemma set_delete_subset: "set (AList.delete k al) \<subseteq> set al"
  by (induction al) auto

lemma map_of_in_set: "map_of al k = Some v \<Longrightarrow> (k, v) \<in> set al"
  by (rule map_of_SomeD)

lemma crawlInv_initial: "crawlInv (initial startUrl)"
  by (simp add: crawlInv_def initial_def MAX_DEPTH_def)

lemma crawlInv_setPhase_like:
  assumes "crawlInv s" and "map_of (activePages s) url = Some (depth, ph0)"
    and "activePages s' = AList.update url (depth, ph) (activePages s)"
    and "queue s' = queue s" and "set (visited s) \<subseteq> set (visited s')"
    and "processed s' = processed s" and "coordinator s' = coordinator s"
    and "resultsSaved s' = resultsSaved s"
  shows "crawlInv s'"
proof -
  from assms(2) have in0: "(url, depth, ph0) \<in> set (activePages s)" by (rule map_of_SomeD)
  then have ne: "activePages s \<noteq> []" by auto
  with assms(1) have nd: "coordinator s \<noteq> Done" by (auto simp: crawlInv_def)
  have act: "\<forall>x \<in> set (activePages s'). (fst x, fst (snd x)) \<in> set (processed s')"
  proof
    fix x assume "x \<in> set (activePages s')"
    then have "x = (url, depth, ph) \<or> x \<in> set (activePages s)"
      using set_update_subset[of url "(depth, ph)" "activePages s"] assms(3) by auto
    then show "(fst x, fst (snd x)) \<in> set (processed s')"
      using assms(1) in0 assms(6) by (force simp: crawlInv_def)
  qed
  show ?thesis
    using assms(1) nd act assms(4-8) unfolding crawlInv_def by auto
qed

lemma crawlInv_step:
  assumes "crawlInv s" and "step v e s = Some s'"
  shows "crawlInv s'"
  using assms(2)
proof (cases rule: stepE)
  case Dispatch
  then obtain url depth q where q: "queue s = (url, depth) # q" by (cases "queue s") auto
  show ?thesis
  proof (cases "url \<in> set (visited s) \<or> MAX_DEPTH < depth")
    case True
    from dispatch_drop[OF q True] Dispatch assms(1) q show ?thesis
      by (auto simp: crawlInv_def)
  next
    case False
    then have nv: "url \<notin> set (visited s)" and d: "depth \<le> MAX_DEPTH" by auto
    have s': "s' = s\<lparr>queue := q, urlCounter := urlCounter s + 1,
                    visited := visited s @ [url],
                    processed := processed s @ [(url, depth)],
                    activePages := AList.update url (depth, Extracting) (activePages s)\<rparr>"
      using dispatch_launch[OF q nv d] Dispatch by simp
    have np: "url \<notin> fst ` set (processed s)" using assms(1) nv by (auto simp: crawlInv_def)
    have act: "\<forall>x \<in> set (activePages s'). (fst x, fst (snd x)) \<in> set (processed s')"
    proof
      fix x assume "x \<in> set (activePages s')"
      then have "x = (url, depth, Extracting) \<or> x \<in> set (activePages s)"
        using set_update_subset[of url "(depth, Extracting)" "activePages s"] s' by auto
      then show "(fst x, fst (snd x)) \<in> set (processed s')"
        using assms(1) s' by (auto simp: crawlInv_def)
    qed
    have "activePages s' \<noteq> []" unfolding s' by (cases "activePages s") auto
    with assms(1) Dispatch(2) np d q act show ?thesis
      unfolding crawlInv_def s' by (auto simp: s')
  qed
next
  case AwaitRace
  with assms(1) show ?thesis by (auto simp: crawlInv_def)
next
  case AwaitDone
  with assms(1) show ?thesis by (auto simp: crawlInv_def)
next
  case (Resume awaited)
  with assms(1) show ?thesis by (auto simp: crawlInv_def)
next
  case (Extracted url p depth)
  from extracted_frame(1)[of v url depth p s] obtain ph where
    "activePages s' = AList.update url (depth, ph) (activePages s)" using Extracted(3) by auto
  then show ?thesis
    using crawlInv_setPhase_like[OF assms(1) Extracted(2), of s' ph] Extracted(3)
    by (simp add: extracted_frame)
next
  case (Submitted url before after p depth f fs newLinks)
  from submitted_frame(1)[of fs url depth newLinks before after p s] obtain ph where
    "activePages s' = AList.update url (depth, ph) (activePages s)" using Submitted(3) by auto
  then show ?thesis
    using crawlInv_setPhase_like[OF assms(1) Submitted(2), of s' ph] Submitted(3)
      submitted_frame(3)[of s url depth fs newLinks before after p]
    by (simp add: submitted_frame(2,5,6,7))
next
  case (Crashed url depth ph)
  show ?thesis
    by (rule crawlInv_setPhase_like[OF assms(1) Crashed(2), of s' "Returning []"])
      (simp_all add: Crashed(4) setPhase_def)
next
  case (Returned url depth newLinks)
  from Returned(2) have in0: "(url, depth, Returning newLinks) \<in> set (activePages s)"
    by (rule map_of_SomeD)
  with assms(1) have nd: "coordinator s \<noteq> Done" and dp: "(url, depth) \<in> set (processed s)"
    by (auto simp: crawlInv_def)
  from returned_frame(6)[of url depth newLinks s] obtain new where
    new: "queue s' = queue s @ map (\<lambda>l. (l, depth + 1)) new" "new \<noteq> [] \<longrightarrow> depth + 1 \<le> MAX_DEPTH"
    using Returned(3) by auto
  have qd: "\<forall>x \<in> set (queue s'). snd x \<le> MAX_DEPTH"
    using assms(1) new by (auto simp: crawlInv_def)
  have act: "\<forall>x \<in> set (activePages s'). (fst x, fst (snd x)) \<in> set (processed s')"
    using assms(1) set_delete_subset[of url "activePages s"] Returned(3)
    by (auto simp: crawlInv_def returned_frame)
  show ?thesis
    using assms(1) nd qd act Returned(3) unfolding crawlInv_def
    by (simp add: returned_frame(1-4))
qed

lemma crawlInv_run: "run v evs (initial startUrl) = Some s \<Longrightarrow> crawlInv s"
  by (rule run_invariant[where I = crawlInv, OF _ crawlInv_initial crawlInv_step])

lemma distinct_count_list: "distinct xs \<Longrightarrow> count_list xs x \<le> 1"
  by (induction xs) auto

lemma step_visited_mono:
  assumes "step v e s = Some s'"
  shows "set (visited s) \<subseteq> set (visited s')"
  using assms
proof (cases rule: stepE)
  case Dispatch
  then obtain url depth q where q: "queue s = (url, depth) # q" by (cases "queue s") auto
  show ?thesis
  proof (cases "url \<in> set (visited s) \<or> MAX_DEPTH < depth")
    case True
    from dispatch_drop[OF q True] Dispatch show ?thesis by simp
  next
    case False
    then have "url \<notin> set (visited s)" "depth \<le> MAX_DEPTH" by auto
    from dispatch_launch[OF q this] Dispatch show ?thesis by auto
  qed
next
  case (Submitted url before after p depth f fs newLinks)
  then show ?thesis using submitted_frame(3)[of s url depth fs newLinks before after p] by simp
qed (auto simp: extracted_frame returned_frame setPhase_def)

lemma step_processed:
  assumes "step v e s = Some s'" and "x \<in> set (processed s')"
  shows "x \<in> set (processed s) \<or> fst x \<notin> set (visited s)"
  using assms(1)
proof (cases rule: stepE)
  case Dispatch
  then obtain url depth q where q: "queue s = (url, depth) # q" by (cases "queue s") auto
  show ?thesis
  proof (cases "url \<in> set (visited s) \<or> MAX_DEPTH < depth")
    case True
    from dispatch_drop[OF q True] Dispatch assms(2) show ?thesis by simp
  next
    case False
    then have "url \<notin> set (visited s)" "depth \<le> MAX_DEPTH" by auto
    from dispatch_launch[OF q this] Dispatch assms(2) this(1) show ?thesis by auto
  qed
qed (use assms(2) in \<open>auto simp: extracted_frame submitted_frame returned_frame setPhase_def\<close>)

lemma submitted_visits:
  assumes "extractInfo after p False \<noteq> None" and "after \<noteq> before" and "after \<notin> set (visited s)"
    and "parseURL url None = Some b" and "startsWith after (origin b)"
  shows "after \<in> set (visited (submitted url depth fs newLinks before after p s))"
proof -
  from assms(1) obtain pd where pd: "extractInfo after p False = Some pd" by auto
  obtain s1 nl1 where m: "mergePostSubmit pd newLinks s = (s1, nl1)"
    by (cases "mergePostSubmit pd newLinks s")
  from mergePostSubmit_frame[OF m] have v: "visited s1 = visited s" by simp
  show ?thesis
    using pd m v assms(2-5)
    by (cases fs) (auto simp: submitted_def formNavigation_def setPhase_def set_setAdd)
qed

text \<open>The sample run, evaluated.\<close>

lemma sample_states:
  "run Later samplePrefix (initial sampleStart) = Some sampleState1"
  "step Later sampleSubmit sampleState1 = Some sampleState2"
  "run Later [Returned sampleStart, Resume, Dispatch] sampleState2 = Some sampleMid"
  "run Later sampleSuffix sampleState2 = Some sampleFinal"
  by code_simp+

lemma sample_run: "run Later sampleRun (initial sampleStart) = Some sampleFinal"
  using sample_states by (simp add: sampleRun_def run_append)

lemma sample_mid:
  "run Later (samplePrefix @ [sampleSubmit] @ [Returned sampleStart, Resume, Dispatch])
     (initial sampleStart) = Some sampleMid"
  using sample_states by (simp add: run_append)

section \<open>At most once, and not too deep\<close>

text \<open>
  C2: in every run of the crawl, whatever the order of its events, every URL is
  processed by at most one session: it occurs at most once in the log of the sessions
  that passed the visited test. The test and the insertion into \<open>visited\<close> are in one
  step of the model because no \<open>await\<close> separates them in the source.
\<close>

theorem C2_processed_at_most_once:
  "run v evs (initial startUrl) = Some s \<Longrightarrow> count_list (map fst (processed s)) url \<le> 1"
  using crawlInv_run[of v evs startUrl s] distinct_count_list[of "map fst (processed s)" url]
  by (simp add: crawlInv_def)

theorem C2_processed_at_most_once_witness:
  "run Later sampleRun (initial sampleStart) = Some sampleFinal
   \<and> count_list (map fst (processed sampleFinal)) ''https://a.test/a'' \<le> 1"
  using sample_run C2_processed_at_most_once[OF sample_run, of "''https://a.test/a''"]
  by simp

text \<open>
  C3: in every state of a run, every session that was launched, every session in flight
  and every item of the queue has a depth of at most \<open>MAX_DEPTH\<close>; and an item deeper
  than that at the head of a queue is dropped by the dispatcher, which changes nothing
  else.
\<close>

theorem C3_depth_bounded:
  "run v evs (initial startUrl) = Some s \<Longrightarrow>
     ((url, depth) \<in> set (processed s) \<longrightarrow> depth \<le> MAX_DEPTH)
     \<and> ((url, depth, ph) \<in> set (activePages s) \<longrightarrow> depth \<le> MAX_DEPTH)
     \<and> ((url, depth) \<in> set (queue s) \<longrightarrow> depth \<le> MAX_DEPTH)
     \<and> (queue t = (url, depth) # q \<and> MAX_DEPTH < depth \<longrightarrow> dispatch t = t\<lparr>queue := q\<rparr>)"
  using crawlInv_run[of v evs startUrl s] dispatch_drop[of t url depth q]
  by (force simp: crawlInv_def)

theorem C3_depth_bounded_witness:
  "run Later (samplePrefix @ [sampleSubmit] @ [Returned sampleStart, Resume, Dispatch])
     (initial sampleStart) = Some sampleMid
   \<and> (''https://a.test/a'', 1) \<in> set (processed sampleMid)
   \<and> (''https://a.test/a'', 1, Extracting) \<in> set (activePages sampleMid)
   \<and> (''https://a.test/b'', 1) \<in> set (queue sampleMid)
   \<and> (1::nat) \<le> MAX_DEPTH
   \<and> queue (sampleMid\<lparr>queue := [(''https://a.test/c'', 4)]\<rparr>) = (''https://a.test/c'', 4) # []
   \<and> MAX_DEPTH < 4
   \<and> dispatch (sampleMid\<lparr>queue := [(''https://a.test/c'', 4)]\<rparr>)
       = sampleMid\<lparr>queue := [(''https://a.test/c'', 4)]\<rparr>\<lparr>queue := []\<rparr>"
  using sample_mid
    C3_depth_bounded[OF sample_mid, of "''https://a.test/a''" 1 Extracting
      "sampleMid\<lparr>queue := [(''https://a.test/c'', 4)]\<rparr>" "[]"]
    C3_depth_bounded[OF sample_mid, of "''https://a.test/c''" 4 Extracting
      "sampleMid\<lparr>queue := [(''https://a.test/c'', 4)]\<rparr>" "[]"]
  by (simp add: sampleMid_def MAX_DEPTH_def)

section \<open>Form navigation\<close>

lemma extractInfo_returns: "parseURL url None \<noteq> None \<Longrightarrow> extractInfo url p init \<noteq> None"
  by (auto simp: extractInfo_def Let_def split: option.splits prod.splits)

text \<open>A serialized URL with a tuple origin and no credentials starts with its origin.\<close>

lemma same_origin_passes_prefix_test:
  assumes "tupleOrigin (scheme a)" "host a \<noteq> None" "username a = []" "password a = []"
    and "origin a = origin b"
  shows "startsWith (toString a) (origin b)"
proof -
  have "toString a = origin a @ (pathname a
     @ (case query a of None \<Rightarrow> [] | Some q \<Rightarrow> CHR ''?'' # q)
     @ (case fragment a of None \<Rightarrow> [] | Some f \<Rightarrow> CHR ''#'' # f))"
    using assms(1-4) by (auto simp: toString_def origin_def)
  then show ?thesis using assms(5) startsWith_append by metis
qed

lemma crawlInv_run_from: "crawlInv s0 \<Longrightarrow> run v evs s0 = Some s \<Longrightarrow> crawlInv s"
  by (rule run_invariant[where I = crawlInv, OF _ _ crawlInv_step])

text \<open>
  C10, as stated, fails. After a submission the session reads \<open>page.url()\<close> and then awaits
  the extraction of the new page; only when that returns does it test and insert the URL.
  In between other sessions run. In the crawl below the session for \<open>/a\<close> is in its form
  loop and \<open>/w\<close>, where its form leads, is not visited; the session for \<open>/b\<close> then returns
  with a link to \<open>/w\<close> and the coordinator launches a session for \<open>/w\<close> at depth 2. The
  submission of \<open>/a\<close> that ends with the page at \<open>/w\<close> is still a step of the run, and after
  it the session of \<open>/w\<close> receives its own initial extraction.
\<close>

theorem C10_counterexample:
  "map_option (\<lambda>s. (map_of (activePages s) ''https://a.test/a'', ''https://a.test/w'' \<in> set (visited s)))
       (run Later raceStart (initial ''https://a.test/''))
     = Some (Some (1, Submitting raceForm [] []), False)
   \<and> map_option (\<lambda>s. (map_of (activePages s) ''https://a.test/a'', map_of (activePages s) ''https://a.test/w''))
       (run Later (raceStart @ raceRun) (initial ''https://a.test/''))
     = Some (Some (1, Submitting raceForm [] []), Some (2, Extracting))
   \<and> map_option (\<lambda>s. (map_of (activePages s) ''https://a.test/a'', map_of (activePages s) ''https://a.test/w'',
                        processed s))
       (run Later (raceStart @ raceRun @ [raceSubmit]) (initial ''https://a.test/''))
     = Some (Some (1, Returning []), Some (2, Extracting),
             [(''https://a.test/'', 0), (''https://a.test/a'', 1), (''https://a.test/b'', 1),
              (''https://a.test/w'', 2)])
   \<and> map_option (\<lambda>s. map_of (activePages s) ''https://a.test/w'')
       (run Later (raceStart @ raceRun @ [raceSubmit, Extracted ''https://a.test/w'' racePageW])
          (initial ''https://a.test/''))
     = Some (Some (2, Returning []))"
  by code_simp

text \<open>
  C10, amended: the test is made when the extraction that follows the submission has
  returned. When at that point the page has moved from \<open>urlBeforeSubmit\<close> to a different
  \<open>urlAfterSubmit\<close> that is not in the visited set and is same-origin with the URL of the
  session (a serialized URL with a tuple origin equal to that of \<open>url\<close>, and without
  credentials), then \<open>urlAfterSubmit\<close> is in the visited set from that step on, so it is
  in the summary of crawled URLs; and in every continuation of the run no session is ever
  launched for it and no initial extraction can happen for it.
\<close>

theorem C10_form_navigation_never_dispatched:
  assumes "run Later evs1 (initial startUrl) = Some s1"
    and "map_of (activePages s1) url = Some (depth, Submitting f fs newLinks)"
    and "parseURL url None = Some b"
    and "parseURL urlAfterSubmit None = Some a" and "toString a = urlAfterSubmit"
    and "tupleOrigin (scheme a)" and "username a = []" and "password a = []"
    and "origin a = origin b"
    and "urlAfterSubmit \<noteq> urlBeforeSubmit" and "urlAfterSubmit \<notin> set (visited s1)"
    and "step Later (Submitted url urlBeforeSubmit urlAfterSubmit p) s1 = Some s2"
    and "run Later evs2 s2 = Some s3"
  shows "urlAfterSubmit \<in> set (visited s2) \<and> urlAfterSubmit \<in> set (visited s3)
     \<and> urlAfterSubmit \<notin> fst ` set (processed s3)
     \<and> step Later (Extracted urlAfterSubmit p') s3 = None"
proof -
  let ?J = "\<lambda>s. crawlInv s \<and> urlAfterSubmit \<in> set (visited s)
              \<and> urlAfterSubmit \<notin> fst ` set (processed s)"
  have inv1: "crawlInv s1" using assms(1) by (rule crawlInv_run)
  have s2: "s2 = submitted url depth fs newLinks urlBeforeSubmit urlAfterSubmit p s1"
    using assms(12,2) by (simp add: step_def)
  have ex: "extractInfo urlAfterSubmit p False \<noteq> None"
    using assms(4) by (intro extractInfo_returns) simp
  have "host a \<noteq> None" using parseURL_tupleOrigin[OF assms(4,6)] by simp
  from same_origin_passes_prefix_test[OF assms(6) this assms(7,8,9)]
  have pre: "startsWith urlAfterSubmit (origin b)" by (simp add: assms(5))
  have v2: "urlAfterSubmit \<in> set (visited s2)"
    unfolding s2 using ex assms(10,11,3) pre by (rule submitted_visits)
  have "urlAfterSubmit \<notin> fst ` set (processed s1)"
    using inv1 assms(11) by (auto simp: crawlInv_def)
  then have p2: "urlAfterSubmit \<notin> fst ` set (processed s2)"
    unfolding s2 by (simp add: submitted_frame(5))
  have J2: "?J s2" using crawlInv_step[OF inv1 assms(12)] v2 p2 by simp
  have J3: "?J s3"
  proof (rule run_invariant[where I = ?J, OF assms(13) J2])
    fix e s s' assume J: "?J s" and st: "step Later e s = Some s'"
    have "urlAfterSubmit \<in> set (visited s')" using step_visited_mono[OF st] J by auto
    moreover have "urlAfterSubmit \<notin> fst ` set (processed s')"
    proof
      assume "urlAfterSubmit \<in> fst ` set (processed s')"
      then obtain x where x: "x \<in> set (processed s')" "fst x = urlAfterSubmit" by auto
      from step_processed[OF st x(1)] x(2) J show False by auto
    qed
    ultimately show "?J s'" using crawlInv_step[OF _ st] J by simp
  qed
  have "urlAfterSubmit \<notin> fst ` set (activePages s3)"
  proof
    assume "urlAfterSubmit \<in> fst ` set (activePages s3)"
    then obtain x where "x \<in> set (activePages s3)" "fst x = urlAfterSubmit" by auto
    with J3 have "(urlAfterSubmit, fst (snd x)) \<in> set (processed s3)"
      by (auto simp: crawlInv_def)
    with J3 show False by force
  qed
  then have "map_of (activePages s3) urlAfterSubmit = None"
    by (simp add: map_of_eq_None_iff)
  then have "step Later (Extracted urlAfterSubmit p') s3 = None" by (simp add: step_def)
  with v2 J3 show ?thesis by simp
qed

theorem C10_form_navigation_never_dispatched_witness:
  "run Later samplePrefix (initial sampleStart) = Some sampleState1
   \<and> map_of (activePages sampleState1) sampleStart
       = Some (0, Submitting sampleForm [] [''https://a.test/a''])
   \<and> map_option origin (parseURL sampleStart None) = Some ''https://a.test''
   \<and> map_option origin (parseURL ''https://a.test/welcome'' None) = Some ''https://a.test''
   \<and> map_option toString (parseURL ''https://a.test/welcome'' None) = Some ''https://a.test/welcome''
   \<and> ''https://a.test/welcome'' \<noteq> ''https://a.test/''
   \<and> ''https://a.test/welcome'' \<notin> set (visited sampleState1)
   \<and> step Later sampleSubmit sampleState1 = Some sampleState2
   \<and> run Later sampleSuffix sampleState2 = Some sampleFinal
   \<and> ''https://a.test/welcome'' \<in> set (visited sampleState2)
   \<and> ''https://a.test/welcome'' \<in> set (visited sampleFinal)
   \<and> ''https://a.test/welcome'' \<notin> fst ` set (processed sampleFinal)
   \<and> step Later (Extracted ''https://a.test/welcome'' samplePage1) sampleFinal = None"
proof -
  let ?w = "\<lparr> scheme = ''https'', username = [], password = [], host = Some ''a.test'',
              port = None, path = [''welcome''], opaque = False, query = None, fragment = None \<rparr>"
  have a: "map_of (activePages sampleState1) sampleStart
       = Some (0, Submitting sampleForm [] [''https://a.test/a''])"
    by (simp add: sampleState1_def sampleStart_def)
  have c: "''https://a.test/welcome'' \<notin> set (visited sampleState1)"
    by (simp add: sampleState1_def)
  obtain u where u: "parseURL sampleStart None = Some u" "origin u = ''https://a.test''"
  proof -
    have "map_option origin (parseURL sampleStart None) = Some ''https://a.test''" by code_simp
    then show ?thesis using that by auto
  qed
  have w: "parseURL ''https://a.test/welcome'' None = Some ?w" by code_simp
  have ow: "origin ?w = ''https://a.test''"
    by (simp add: origin_def hostPort_def tupleOrigin_def defaultPort_def)
  have tw: "toString ?w = ''https://a.test/welcome''"
    by (simp add: toString_def hostPort_def pathname_def)
  have sw: "tupleOrigin (scheme ?w)" by (simp add: tupleOrigin_def defaultPort_def)
  have e: "step Later (Submitted sampleStart ''https://a.test/'' ''https://a.test/welcome'' samplePage1)
      sampleState1 = Some sampleState2"
    using sample_states(2) by (simp add: sampleSubmit_def)
  from C10_form_navigation_never_dispatched[OF sample_states(1) a u(1) w tw sw _ _ _ _ c e sample_states(4),
      of samplePage1]
  show ?thesis
    using sample_states a c u w ow tw by (simp add: sampleSubmit_def)
qed


section \<open>A navigation that fails\<close>

lemma domFindings_jsonString: "domFindings (jsonString k v b pd) = domFindings pd"
  by (auto simp: domFindings_def jsonString_def addLink_def addEndpoint_def Let_def split: option.splits)

lemma domFindings_json:
  "domFindings (extractDataFromJson j b pd) = domFindings pd"
  "domFindings (walkProps kvs b pd) = domFindings pd"
  "domFindings (walkItems i xs b pd) = domFindings pd"
proof (induction j b pd and kvs b pd and i xs b pd rule: extractDataFromJson_walkProps_walkItems.induct)
  case (8 k v kvs b pd)
  then show ?case by (cases v) (simp_all add: domFindings_jsonString)
next
  case (10 i v vs b pd)
  then show ?case by (cases v) (simp_all add: domFindings_jsonString)
qed simp_all

lemma domFindings_onNetEvent: "domFindings (onNetEvent url pd ev) = domFindings pd"
proof (cases ev)
  case (Request rq)
  then show ?thesis by (simp add: onNetEvent_def onRequest_def domFindings_def addEndpoint_def Let_def)
next
  case (Response rs)
  have "domFindings (addEndpoint e pd) = domFindings pd" for e
    by (simp add: domFindings_def addEndpoint_def)
  with Response show ?thesis
    by (auto simp: onNetEvent_def onResponse_def Let_def domFindings_json(1) split: option.splits)
qed

lemma domFindings_observed: "domFindings (observed url p) = ([], [], [])"
proof -
  have "domFindings (foldl (onNetEvent url) pd evs) = domFindings pd" for pd evs
    by (induction evs arbitrary: pd) (simp_all add: domFindings_onNetEvent)
  then show ?thesis by (simp add: observed_def domFindings_def emptyPageData_def)
qed

lemma extractInfo_goto_throws:
  "gotoThrows p \<Longrightarrow> parseURL url None \<noteq> None \<Longrightarrow> extractInfo url p True = Some (observed url p)"
  by (auto simp: extractInfo_def observed_def Let_def)

lemma setAddAll_Nil: "setAddAll xs [] = xs"
  by (simp add: setAddAll_def)

lemma fst_set_delete: "fst ` set (AList.delete k al) = fst ` set al - {k}"
  by (induction al) auto

lemma map_of_delete_other: "u \<noteq> k \<Longrightarrow> map_of (AList.delete k al) u = map_of al u"
  by (induction al) auto

lemma map_of_update_other: "u \<noteq> k \<Longrightarrow> map_of (AList.update k v al) u = map_of al u"
  by (induction al) auto

lemma map_of_update_same: "map_of (AList.update k v al) k = Some v"
  by (induction al) auto

text \<open>
  C4, as stated, fails: the observers are installed before the navigation and write into
  the \<open>pageData\<close> that the \<open>catch\<close> path returns. When the request of the failing
  navigation is API-shaped, the session contributes an \<open>[INTERCEPTED]\<close> endpoint.
\<close>

theorem C4_counterexample:
  "gotoThrows (failedPage [Request apiRequest])
   \<and> map_option endpointsFound
        (run Later [Dispatch, Extracted ''https://a.test/api/users'' (failedPage [Request apiRequest])]
           (initial ''https://a.test/api/users''))
     = Some [''[INTERCEPTED] GET https://a.test/api/users'']"
  by code_simp

text \<open>
  C4, amended: when the navigation of the session for \<open>url\<close> throws, the session
  contributes exactly what the network observers recorded before the failure (links and
  endpoints from requests and JSON bodies, replayable requests) and nothing that comes
  from the page content or the probes (no forms, frameworks or components); with no
  network event observed it contributes nothing. The failure stays inside the session:
  the queue, the visited set, the coordinator and the other sessions are untouched, the
  session returns, and its callback then runs, removes it from the sessions in flight
  and leaves every queued item in place.
\<close>

theorem C4_failed_navigation:
  assumes "map_of (activePages s) url = Some (depth, Extracting)"
    and "gotoThrows p" and "parseURL url None \<noteq> None"
  shows "\<exists>s' s''. step Later (Extracted url p) s = Some s'
     \<and> linksFound s' = setAddAll (linksFound s) (links (observed url p))
     \<and> endpointsFound s' = setAddAll (endpointsFound s) (endpoints (observed url p))
     \<and> requestsToReplicate s' = requestsToReplicate s @ requestsToReplicateForPage (observed url p)
     \<and> formsFound s' = formsFound s
     \<and> jsFrameworksDetected s' = jsFrameworksDetected s
     \<and> reactComponentsFound s' = reactComponentsFound s
     \<and> (netEvents p = [] \<longrightarrow> linksFound s' = linksFound s \<and> endpointsFound s' = endpointsFound s
            \<and> requestsToReplicate s' = requestsToReplicate s)
     \<and> queue s' = queue s \<and> visited s' = visited s \<and> coordinator s' = coordinator s
     \<and> (\<forall>u. u \<noteq> url \<longrightarrow> map_of (activePages s') u = map_of (activePages s) u)
     \<and> map_of (activePages s') url = Some (depth, Returning (links (observed url p)))
     \<and> step Later (Returned url) s' = Some s''
     \<and> url \<notin> fst ` set (activePages s'')
     \<and> (\<forall>u. u \<noteq> url \<longrightarrow> map_of (activePages s'') u = map_of (activePages s) u)
     \<and> prefix (queue s) (queue s'') \<and> coordinator s'' = coordinator s"
proof -
  let ?obs = "observed url p"
  let ?s' = "extracted Later url depth p s"
  let ?s'' = "returned url depth (links ?obs) ?s'"
  have d: "forms ?obs = []" "jsFrameworks ?obs = []" "reactComponents ?obs = []"
    using domFindings_observed[of url p] by (simp_all add: domFindings_def)
  have s': "?s' = setPhase url depth (Returning (links ?obs)) (mergeInitial ?obs s)"
    using extractInfo_goto_throws[OF assms(2,3)] d by (simp add: extracted_def)
  have 1: "step Later (Extracted url p) s = Some ?s'" using assms(1) by (simp add: step_def)
  have e: "netEvents p = [] \<Longrightarrow> ?obs = emptyPageData" by (simp add: observed_def)
  have a': "activePages ?s' = AList.update url (depth, Returning (links ?obs)) (activePages s)"
    unfolding s' by (simp add: setPhase_def mergeInitial_def)
  have m': "map_of (activePages ?s') url = Some (depth, Returning (links ?obs))"
    unfolding a' by (rule map_of_update_same)
  have 2: "step Later (Returned url) ?s' = Some ?s''" using m' by (simp add: step_def)
  from returned_frame(6)[of url depth "links ?obs" ?s'] obtain new where
    new: "queue ?s'' = queue ?s' @ map (\<lambda>l. (l, depth + 1)) new" by blast
  have q': "queue ?s' = queue s" by (simp add: extracted_frame)
  have a'': "activePages ?s'' = AList.delete url (activePages ?s')" by (simp add: returned_frame)
  show ?thesis
  proof (rule exI[of _ ?s'], rule exI[of _ ?s''], intro conjI)
    show "step Later (Extracted url p) s = Some ?s'" by (rule 1)
    show "step Later (Returned url) ?s' = Some ?s''" by (rule 2)
    show "map_of (activePages ?s') url = Some (depth, Returning (links ?obs))" by (rule m')
    show "netEvents p = [] \<longrightarrow> linksFound ?s' = linksFound s \<and> endpointsFound ?s' = endpointsFound s
            \<and> requestsToReplicate ?s' = requestsToReplicate s"
      using e unfolding s' by (auto simp: setPhase_def mergeInitial_def emptyPageData_def setAddAll_Nil)
    show "url \<notin> fst ` set (activePages ?s'')" unfolding a'' by (simp add: fst_set_delete)
    show "\<forall>u. u \<noteq> url \<longrightarrow> map_of (activePages ?s') u = map_of (activePages s) u"
      unfolding a' by (simp add: map_of_update_other)
    show "\<forall>u. u \<noteq> url \<longrightarrow> map_of (activePages ?s'') u = map_of (activePages s) u"
      unfolding a'' a' by (simp add: map_of_update_other map_of_delete_other)
    show "prefix (queue s) (queue ?s'')" unfolding new q' by simp
    show "coordinator ?s'' = coordinator s" by (simp add: returned_frame extracted_frame)
  qed (simp_all add: s' setPhase_def mergeInitial_def d setAddAll_Nil)
qed

theorem C4_failed_navigation_witness:
  "map_of (activePages sampleMid) ''https://a.test/a'' = Some (1, Extracting)
   \<and> gotoThrows (failedPage [Request apiRequest])
   \<and> parseURL ''https://a.test/a'' None \<noteq> None
   \<and> (\<exists>s' s''. step Later (Extracted ''https://a.test/a'' (failedPage [Request apiRequest])) sampleMid = Some s'
        \<and> endpointsFound s' = [''[INTERCEPTED] GET https://a.test/api/users'']
        \<and> formsFound s' = [sampleForm]
        \<and> queue s' = [(''https://a.test/b'', 1)]
        \<and> step Later (Returned ''https://a.test/a'') s' = Some s''
        \<and> ''https://a.test/a'' \<notin> fst ` set (activePages s'')
        \<and> prefix [(''https://a.test/b'', 1)] (queue s''))"
proof -
  let ?p = "failedPage [Request apiRequest]"
  have a: "map_of (activePages sampleMid) ''https://a.test/a'' = Some (1, Extracting)"
    by (simp add: sampleMid_def)
  have b: "gotoThrows ?p" by (simp add: failedPage_def)
  have c: "parseURL ''https://a.test/a'' None \<noteq> None" by code_simp
  have o: "endpoints (observed ''https://a.test/a'' ?p) = [''[INTERCEPTED] GET https://a.test/api/users'']"
    by code_simp
  have e: "setAddAll [] [''[INTERCEPTED] GET https://a.test/api/users'']
      = [''[INTERCEPTED] GET https://a.test/api/users'']"
    by (simp add: setAddAll_def setAdd_def)
  from C4_failed_navigation[OF a b c] obtain s' s'' where
    "step Later (Extracted ''https://a.test/a'' ?p) sampleMid = Some s'"
    "endpointsFound s' = setAddAll (endpointsFound sampleMid) (endpoints (observed ''https://a.test/a'' ?p))"
    "formsFound s' = formsFound sampleMid" "queue s' = queue sampleMid"
    "step Later (Returned ''https://a.test/a'') s' = Some s''"
    "''https://a.test/a'' \<notin> fst ` set (activePages s'')"
    "prefix (queue sampleMid) (queue s'')"
    by blast
  then have "\<exists>s' s''. step Later (Extracted ''https://a.test/a'' ?p) sampleMid = Some s'
        \<and> endpointsFound s' = [''[INTERCEPTED] GET https://a.test/api/users'']
        \<and> formsFound s' = [sampleForm]
        \<and> queue s' = [(''https://a.test/b'', 1)]
        \<and> step Later (Returned ''https://a.test/a'') s' = Some s''
        \<and> ''https://a.test/a'' \<notin> fst ` set (activePages s'')
        \<and> prefix [(''https://a.test/b'', 1)] (queue s'')"
    unfolding o by (intro exI[of _ s'] exI[of _ s'']) (simp add: sampleMid_def e)
  with a b c show ?thesis by blast
qed

section \<open>The origin of the links\<close>

lemma links_jsonString:
  "l \<in> set (links (jsonString k v url pd)) \<Longrightarrow> l \<in> set (links pd) \<or> originPrefix url l"
  by (auto simp: jsonString_def addLink_def addEndpoint_def originPrefix_def set_setAdd Let_def
      split: option.splits if_splits)

lemma links_json:
  "\<forall>l. l \<in> set (links (extractDataFromJson j url pd)) \<longrightarrow> l \<in> set (links pd) \<or> originPrefix url l"
  "\<forall>l. l \<in> set (links (walkProps kvs url pd)) \<longrightarrow> l \<in> set (links pd) \<or> originPrefix url l"
  "\<forall>l. l \<in> set (links (walkItems i xs url pd)) \<longrightarrow> l \<in> set (links pd) \<or> originPrefix url l"
proof (induction j url pd and kvs url pd and i xs url pd rule: extractDataFromJson_walkProps_walkItems.induct)
  case (8 k v kvs b pd)
  show ?case
  proof (intro allI impI)
    fix l assume l: "l \<in> set (links (walkProps ((k, v) # kvs) b pd))"
    let ?pd = "case v of JStr s \<Rightarrow> jsonString k s b pd | _ \<Rightarrow> extractDataFromJson v b pd"
    from l "8.IH"(6) have "l \<in> set (links ?pd) \<or> originPrefix b l" by simp
    moreover have "l \<in> set (links ?pd) \<Longrightarrow> l \<in> set (links pd) \<or> originPrefix b l"
      using "8.IH"(1-5) links_jsonString[of l k _ b pd] by (cases v) auto
    ultimately show "l \<in> set (links pd) \<or> originPrefix b l" by blast
  qed
next
  case (10 i v vs b pd)
  show ?case
  proof (intro allI impI)
    fix l assume l: "l \<in> set (links (walkItems i (v # vs) b pd))"
    let ?pd = "case v of JStr s \<Rightarrow> jsonString (showNat i) s b pd | _ \<Rightarrow> extractDataFromJson v b pd"
    from l "10.IH"(6) have "l \<in> set (links ?pd) \<or> originPrefix b l" by simp
    moreover have "l \<in> set (links ?pd) \<Longrightarrow> l \<in> set (links pd) \<or> originPrefix b l"
      using "10.IH"(1-5) links_jsonString[of l "showNat i" _ b pd] by (cases v) auto
    ultimately show "l \<in> set (links pd) \<or> originPrefix b l" by blast
  qed
qed simp_all

lemma links_onNetEvent:
  "l \<in> set (links (onNetEvent url pd ev)) \<Longrightarrow> l \<in> set (links pd) \<or> originPrefix url l"
proof (cases ev)
  case (Request rq)
  then show "l \<in> set (links (onNetEvent url pd ev)) \<Longrightarrow> ?thesis"
    by (auto simp: onNetEvent_def onRequest_def addEndpoint_def Let_def split: if_splits)
next
  case (Response rs)
  have e: "links (addEndpoint e pd) = links pd" for e by (simp add: addEndpoint_def)
  from Response show "l \<in> set (links (onNetEvent url pd ev)) \<Longrightarrow> ?thesis"
    using links_json(1)[of _ url pd] links_json(1)[of _ url "addEndpoint _ pd"]
    by (auto simp: onNetEvent_def onResponse_def Let_def e split: option.splits if_splits)
qed

lemma links_observed:
  "l \<in> set (links (foldl (onNetEvent url) pd evs)) \<Longrightarrow> l \<in> set (links pd) \<or> originPrefix url l"
proof (induction evs arbitrary: pd)
  case (Cons ev evs)
  from Cons.IH[of "onNetEvent url pd ev"] Cons.prems links_onNetEvent[of l url pd ev]
  show ?case by auto
qed simp

lemma links_extractContent_origin:
  assumes "l \<in> set (links (extractContent later url cur base d pd))"
  shows "l \<in> set (links pd) \<or> startsWith l (origin base)"
  using assms by (auto simp: links_extractContent links_extractLinks)

lemma links_extractInfo_origin:
  assumes "extractInfo url p init = Some pd" and "l \<in> set (links pd)"
  shows "originPrefix url l \<or> originPrefix (pageUrl p) l"
proof -
  let ?observed = "if init then foldl (onNetEvent url) emptyPageData (netEvents p) else emptyPageData"
  have 0: "l \<in> set (links ?observed) \<Longrightarrow> originPrefix url l"
    using links_observed[of l url emptyPageData "netEvents p"]
    by (auto simp: emptyPageData_def split: if_splits)
  have 1: "l \<in> set (links (fst (probeFrameworks p ?observed))) \<Longrightarrow> originPrefix url l"
    using 0 by (simp add: links_probeFrameworks)
  from assms(1) obtain base where base: "parseURL url None = Some base"
    by (auto simp: extractInfo_def split: option.splits)
  consider (obs) "pd = ?observed" | (probe) "pd = fst (probeFrameworks p ?observed)"
    | (content) b d where "parseURL (pageUrl p) None = Some b"
        "pd = extractContent True url (pageUrl p) b d (fst (probeFrameworks p ?observed))"
    using assms(1) base
    by (auto simp: extractInfo_def Let_def split: option.splits if_splits prod.splits)
  then show ?thesis
  proof cases
    case obs
    with assms(2) 0 show ?thesis by simp
  next
    case probe
    with assms(2) 1 show ?thesis by simp
  next
    case (content b d)
    from links_extractContent_origin[of l True url "pageUrl p" b d "fst (probeFrameworks p ?observed)"]
      assms(2) content 1
    show ?thesis by (auto simp: originPrefix_def)
  qed
qed

lemma links_extractInfo0_origin:
  assumes "extractInfo0 url p = Some pd" and "l \<in> set (links pd)"
  shows "originPrefix url l"
proof -
  from assms(1) obtain base where base: "parseURL url None = Some base"
    by (auto simp: extractInfo0_def split: option.splits)
  have e: "links (fst (probeFrameworks p emptyPageData)) = []"
    by (simp add: links_probeFrameworks emptyPageData_def)
  consider (empty) "links pd = []"
    | (content) d where "pd = extractContent False url url base d (fst (probeFrameworks p emptyPageData))"
    using assms(1) base e
    by (auto simp: extractInfo0_def emptyPageData_def split: option.splits if_splits prod.splits)
  then show ?thesis
  proof cases
    case empty
    with assms(2) show ?thesis by simp
  next
    case (content d)
    from links_extractContent_origin[of l False url url base d "fst (probeFrameworks p emptyPageData)"]
      assms(2) content e base
    show ?thesis by (auto simp: originPrefix_def)
  qed
qed

lemma set_foldl_mergeLink:
  "set (fst (foldl mergeLink (found, nl) ls)) = set found \<union> set ls"
proof (induction ls arbitrary: found nl)
  case (Cons l ls)
  have m: "mergeLink (found, nl) l
      = (if l \<in> set found then (found, nl) else (found @ [l], nl @ [l]))"
    by (simp add: mergeLink_def)
  show ?case
  proof (cases "l \<in> set found")
    case True
    then show ?thesis using Cons[of found nl] by (auto simp: m)
  next
    case False
    then show ?thesis using Cons[of "found @ [l]" "nl @ [l]"] by (auto simp: m)
  qed
qed simp

lemma linksFound_step:
  assumes "step v e s = Some s'" and "l \<in> set (linksFound s')"
  shows "l \<in> set (linksFound s) \<or> (\<exists>u \<in> set (passUrls e). originPrefix u l)"
  using assms(1)
proof (cases rule: stepE)
  case Dispatch
  then obtain url depth q where q: "queue s = (url, depth) # q" by (cases "queue s") auto
  have "linksFound (dispatch s) = linksFound s"
    using q by (auto simp: dispatch_def processStart_def Let_def)
  with Dispatch assms(2) show ?thesis by simp
next
  case (Extracted url p depth)
  show ?thesis
  proof (cases "if v = Later then extractInfo url p True else extractInfo0 url p")
    case None
    with Extracted assms(2) show ?thesis by (simp add: extracted_def setPhase_def)
  next
    case (Some pd)
    then have "linksFound s' = setAddAll (linksFound s) (links pd)"
      using Extracted(3) by (auto simp: extracted_def setPhase_def mergeInitial_def Let_def split: list.splits)
    with assms(2) have "l \<in> set (linksFound s) \<or> l \<in> set (links pd)" by (simp add: set_setAddAll)
    moreover have "l \<in> set (links pd) \<Longrightarrow> originPrefix url l \<or> originPrefix (pageUrl p) l"
      using Some links_extractInfo_origin[of url p True pd l] links_extractInfo0_origin[of url p pd l]
      by (auto split: if_splits)
    ultimately show ?thesis using Extracted(1) by auto
  qed
next
  case (Submitted url before after p depth f fs newLinks)
  show ?thesis
  proof (cases "extractInfo after p False")
    case None
    with Submitted assms(2) show ?thesis by (simp add: submitted_def setPhase_def)
  next
    case (Some pd)
    obtain s1 nl1 where m: "mergePostSubmit pd newLinks s = (s1, nl1)"
      by (cases "mergePostSubmit pd newLinks s")
    have l1: "set (linksFound s1) = set (linksFound s) \<union> set (links pd)"
      using m set_foldl_mergeLink[of "linksFound s" newLinks "links pd"]
      by (auto simp: mergePostSubmit_def split: prod.splits)
    have "linksFound s' = linksFound s1"
      using Submitted(3) Some m
      by (auto simp: submitted_def setPhase_def formNavigation_def split: option.splits list.splits if_splits)
    with assms(2) l1 have "l \<in> set (linksFound s) \<or> l \<in> set (links pd)" by auto
    moreover have "l \<in> set (links pd) \<Longrightarrow> originPrefix after l \<or> originPrefix (pageUrl p) l"
      using Some by (rule links_extractInfo_origin)
    ultimately show ?thesis using Submitted(1) by auto
  qed
next
  case (Returned url depth newLinks)
  have "linksFound (foldl (enqueue d) s0 ls) = linksFound s0" for d s0 ls
    by (induction ls arbitrary: s0) (simp_all add: enqueue_def)
  with Returned assms(2) show ?thesis by (simp add: returned_def Let_def)
qed (use assms(2) in \<open>auto simp: setPhase_def\<close>)

lemma linksFound_run:
  assumes "run v evs s0 = Some s" and "l \<in> set (linksFound s)"
  shows "l \<in> set (linksFound s0) \<or> (\<exists>e \<in> set evs. \<exists>u \<in> set (passUrls e). originPrefix u l)"
  using assms
proof (induction evs arbitrary: s0)
  case Nil
  then show ?case by simp
next
  case (Cons e es)
  from Cons.prems(1) obtain s1 where 1: "step v e s0 = Some s1" and 2: "run v es s1 = Some s"
    by (auto split: option.splits)
  from Cons.IH[OF 2 Cons.prems(2)] linksFound_step[OF 1, of l] show ?case by auto
qed

text \<open>What the test guarantees: every link in the aggregated link set starts with the
  origin of a page URL of the extraction pass that found it, the URL the pass was requested
  with (links from JSON bodies) or the live current URL of the pass (links from anchors).\<close>

lemma linksFound_start_with_pass_origin:
  assumes "run v evs (initial startUrl) = Some s" and "l \<in> set (linksFound s)"
  shows "\<exists>e \<in> set evs. \<exists>u \<in> set (passUrls e). originPrefix u l"
  using linksFound_run[OF assms] by (simp add: initial_def)

text \<open>
  C1: the crawler does not keep the links to the origin of the start URL. Its same-origin
  test is \<open>fullUrl.startsWith(origin)\<close>, which a URL of another origin passes when the name
  of its host begins with the name of the page's host. A crawl of \<open>https://a.test/\<close> whose
  start page links to \<open>https://a.test.evil.com/z\<close> ends with that link in the link set,
  and has crawled it; a JSON body with that URL in a string adds it to the links as well.
  The origins of the two URLs differ.
\<close>

theorem C1_prefix_test_admits_other_origin:
  "map_option (\<lambda>s. (coordinator s, linksFound s, visited s)) (run Later collidingRun (initial ''https://a.test/''))
     = Some (Done, [''https://a.test.evil.com/z''], [''https://a.test/'', ''https://a.test.evil.com/z''])
   \<and> links (extractDataFromJson (JObj [(''next'', JStr ''https://a.test.evil.com/z'')])
              ''https://a.test/'' emptyPageData)
     = [''https://a.test.evil.com/z'']
   \<and> map_option origin (parseURL ''https://a.test.evil.com/z'' None) = Some ''https://a.test.evil.com''
   \<and> map_option origin (parseURL ''https://a.test/'' None) = Some ''https://a.test''"
  by code_simp


section \<open>Termination\<close>

lemma wf_weightOrder: "wf weightOrder"
  by (simp add: weightOrder_def wf_lex_prod)

lemma wf_crawlOrder: "wf crawlOrder"
  unfolding crawlOrder_def by (intro wf_inv_image wf_lex_prod wf_mult wf_weightOrder wf_less_than)

lemma crawlOrder_iff:
  "(s', s) \<in> crawlOrder \<longleftrightarrow>
     (stateWeight s', stateWeight s) \<in> mult weightOrder
     \<or> (stateWeight s' = stateWeight s \<and> coordinatorWeight s' < coordinatorWeight s)"
  by (simp add: crawlOrder_def)

text \<open>Replacing weights by smaller ones lowers the multiset.\<close>

lemma mult_replace:
  assumes "J \<noteq> {#}" and "\<forall>k \<in># K. \<exists>j \<in># J. (k, j) \<in> r"
    and "M = I + J" and "M' = I + K"
  shows "(M', M) \<in> mult r"
  using one_step_implies_mult[OF assms(1,2), of I] assms(3,4) by simp

lemma mset_update_present:
  "map_of al k = Some old \<Longrightarrow>
     \<exists>I. mset (map f (AList.update k v al)) = I + {#f (k, v)#} \<and> mset (map f al) = I + {#f (k, old)#}"
proof (induction al)
  case Nil
  then show ?case by simp
next
  case (Cons a al)
  obtain k' v' where a: "a = (k', v')" by (cases a)
  show ?case
  proof (cases "k' = k")
    case True
    with Cons.prems a show ?thesis by (auto intro!: exI[of _ "mset (map f al)"])
  next
    case False
    with Cons a obtain I where "mset (map f (AList.update k v al)) = I + {#f (k, v)#}"
      "mset (map f al) = I + {#f (k, old)#}" by auto
    with False a show ?thesis by (auto intro!: exI[of _ "I + {#f (k', v')#}"])
  qed
qed

lemma mset_update_any:
  "\<exists>I R. mset (map f (AList.update k v al)) = I + {#f (k, v)#} \<and> mset (map f al) = I + R"
proof (cases "map_of al k")
  case None
  then have "AList.update k v al = al @ [(k, v)]" by (induction al) (auto split: if_splits)
  then show ?thesis by (auto intro!: exI[of _ "mset (map f al)"] exI[of _ "{#}"])
next
  case (Some old)
  from mset_update_present[OF Some, of f v] show ?thesis by blast
qed

lemma mset_delete_present:
  "map_of al k = Some old \<Longrightarrow>
     \<exists>D. mset (map f al) = mset (map f (AList.delete k al)) + D \<and> f (k, old) \<in># D"
proof (induction al)
  case Nil
  then show ?case by simp
next
  case (Cons a al)
  obtain k' v' where a: "a = (k', v')" by (cases a)
  show ?case
  proof (cases "k' = k")
    case True
    have "\<exists>D. mset (map f al) = mset (map f (AList.delete k al)) + D"
      by (induction al) (auto intro: exI[of _ "_ + {#_#}"])
    then obtain D where "mset (map f al) = mset (map f (AList.delete k al)) + D" ..
    with True a Cons.prems show ?thesis
      by (auto intro!: exI[of _ "D + {#f (k, old)#}"])
  next
    case False
    with Cons a obtain D where "mset (map f al) = mset (map f (AList.delete k al)) + D"
      "f (k, old) \<in># D" by auto
    with False a show ?thesis by (auto intro!: exI[of _ D])
  qed
qed

lemma phaseWeight_less:
  "ph \<noteq> Extracting \<Longrightarrow> (sessionWeight (url, d, ph), sessionWeight (url, d, Extracting)) \<in> weightOrder"
  "(sessionWeight (url, d, Returning nl), sessionWeight (url, d, Submitting f fs nl')) \<in> weightOrder"
  "(sessionWeight (url, d, Submitting g gs nl), sessionWeight (url, d, Submitting f (g # gs) nl')) \<in> weightOrder"
  "(sessionWeight (url, d, ph), queueWeight (url, d)) \<in> weightOrder"
  by (cases ph; simp add: sessionWeight_def queueWeight_def phaseWeight_def weightOrder_def)+

text \<open>A step of a session: the entry of \<open>url\<close> is replaced by one of smaller weight.\<close>

lemma session_step_decreases:
  assumes "map_of (activePages s) url = Some (d, ph)"
    and "activePages s' = AList.update url (d, ph') (activePages s)"
    and "(sessionWeight (url, d, ph'), sessionWeight (url, d, ph)) \<in> weightOrder"
    and "queue s' = queue s"
  shows "(s', s) \<in> crawlOrder"
proof -
  from mset_update_present[OF assms(1), of sessionWeight "(d, ph')"] obtain I where
    I: "mset (map sessionWeight (AList.update url (d, ph') (activePages s)))
          = I + {#sessionWeight (url, d, ph')#}"
       "mset (map sessionWeight (activePages s)) = I + {#sessionWeight (url, d, ph)#}"
    by blast
  have "(stateWeight s', stateWeight s) \<in> mult weightOrder"
    by (rule mult_replace[where J = "{#sessionWeight (url, d, ph)#}"
          and K = "{#sessionWeight (url, d, ph')#}"
          and I = "mset (map queueWeight (queue s)) + I"])
      (use assms(2,3,4) I in \<open>simp_all add: stateWeight_def\<close>)
  then show ?thesis by (simp add: crawlOrder_iff)
qed

lemma step_decreases:
  assumes "step v e s = Some s'"
  shows "(s', s) \<in> crawlOrder"
  using assms
proof (cases rule: stepE)
  case Dispatch
  then obtain url depth q where q: "queue s = (url, depth) # q" by (cases "queue s") auto
  show ?thesis
  proof (cases "url \<in> set (visited s) \<or> MAX_DEPTH < depth")
    case True
    have s': "s' = s\<lparr>queue := q\<rparr>" using dispatch_drop[OF q True] Dispatch by simp
    have "(stateWeight s', stateWeight s) \<in> mult weightOrder"
      by (rule mult_replace[where J = "{#queueWeight (url, depth)#}" and K = "{#}"
            and I = "mset (map queueWeight q) + mset (map sessionWeight (activePages s))"])
        (simp_all add: stateWeight_def s' q)
    then show ?thesis by (simp add: crawlOrder_iff)
  next
    case False
    then have "url \<notin> set (visited s)" "depth \<le> MAX_DEPTH" by auto
    from dispatch_launch[OF q this] Dispatch
    have s': "queue s' = q"
      "activePages s' = AList.update url (depth, Extracting) (activePages s)" by simp_all
    from mset_update_any[of sessionWeight url "(depth, Extracting)" "activePages s"] obtain I R where
      I: "mset (map sessionWeight (AList.update url (depth, Extracting) (activePages s)))
            = I + {#sessionWeight (url, depth, Extracting)#}"
         "mset (map sessionWeight (activePages s)) = I + R" by blast
    have "(stateWeight s', stateWeight s) \<in> mult weightOrder"
    proof (rule mult_replace[where J = "{#queueWeight (url, depth)#} + R"
            and K = "{#sessionWeight (url, depth, Extracting)#}"
            and I = "mset (map queueWeight q) + I"])
      show "\<forall>k\<in>#{#sessionWeight (url, depth, Extracting)#}.
          \<exists>j\<in>#{#queueWeight (url, depth)#} + R. (k, j) \<in> weightOrder"
        using phaseWeight_less(4)[of url depth Extracting] by auto
    qed (use I in \<open>simp_all add: stateWeight_def s' q\<close>)
    then show ?thesis by (simp add: crawlOrder_iff)
  qed
next
  case AwaitRace
  have "\<not> list_ex (settled s') (map fst (activePages s))"
    unfolding AwaitRace(4) by (auto simp: list_ex_iff settled_def)
  then show ?thesis
    using AwaitRace by (simp add: crawlOrder_iff stateWeight_def coordinatorWeight_def)
next
  case AwaitDone
  then show ?thesis by (simp add: crawlOrder_iff stateWeight_def coordinatorWeight_def)
next
  case (Resume awaited)
  then show ?thesis by (simp add: crawlOrder_iff stateWeight_def coordinatorWeight_def)
next
  case (Extracted url p depth)
  from extracted_frame(1)[of v url depth p s] obtain ph where
    ph: "ph \<noteq> Extracting" "activePages s' = AList.update url (depth, ph) (activePages s)"
    unfolding Extracted(3) by blast
  show ?thesis
    by (rule session_step_decreases[OF Extracted(2) ph(2) phaseWeight_less(1)[OF ph(1)]])
      (simp add: Extracted(3) extracted_frame)
next
  case (Submitted url before after p depth f fs newLinks)
  from submitted_frame(1)[of fs url depth newLinks before after p s] obtain ph where
    ph: "ph = Returning [] \<or> (\<exists>nl. ph = Returning nl) \<or> (\<exists>g gs nl. fs = g # gs \<and> ph = Submitting g gs nl)"
      "activePages s' = AList.update url (depth, ph) (activePages s)"
    unfolding Submitted(3) by blast
  have "(sessionWeight (url, depth, ph), sessionWeight (url, depth, Submitting f fs newLinks)) \<in> weightOrder"
    using ph(1) phaseWeight_less(2,3) by auto
  with Submitted(2) ph(2) show ?thesis
    by (rule session_step_decreases) (simp add: Submitted(3) submitted_frame)
next
  case (Crashed url depth ph)
  have "(sessionWeight (url, depth, Returning []), sessionWeight (url, depth, ph)) \<in> weightOrder"
    using Crashed(3) phaseWeight_less(1,2) by (cases ph) auto
  moreover have "activePages s' = AList.update url (depth, Returning []) (activePages s)"
    by (simp add: Crashed(4) setPhase_def)
  ultimately show ?thesis
    using Crashed(2) by (intro session_step_decreases[where s' = s' and ph' = "Returning []"])
      (simp_all add: Crashed(4) setPhase_def)
next
  case (Returned url depth newLinks)
  from returned_frame(6)[of url depth newLinks s] obtain new where
    new: "queue s' = queue s @ map (\<lambda>l. (l, depth + 1)) new" "new \<noteq> [] \<longrightarrow> depth + 1 \<le> MAX_DEPTH"
    unfolding Returned(3) by blast
  have a': "activePages s' = AList.delete url (activePages s)"
    using Returned(3) by (simp add: returned_frame)
  from mset_delete_present[OF Returned(2), of sessionWeight] obtain D where
    D: "mset (map sessionWeight (activePages s))
          = mset (map sessionWeight (AList.delete url (activePages s))) + D"
       "sessionWeight (url, depth, Returning newLinks) \<in># D" by blast
  have "(stateWeight s', stateWeight s) \<in> mult weightOrder"
  proof (rule mult_replace[where J = D and K = "mset (map queueWeight (map (\<lambda>l. (l, depth + 1)) new))"
        and I = "mset (map queueWeight (queue s))
                 + mset (map sessionWeight (AList.delete url (activePages s)))"])
    show "D \<noteq> {#}" using D(2) by auto
    show "\<forall>k\<in>#mset (map queueWeight (map (\<lambda>l. (l, depth + 1)) new)). \<exists>j\<in>#D. (k, j) \<in> weightOrder"
    proof
      fix k assume "k \<in># mset (map queueWeight (map (\<lambda>l. (l, depth + 1)) new))"
      then have k: "k = (MAX_DEPTH + 1 - (depth + 1), 3, 0)" and "new \<noteq> []"
        by (auto simp: queueWeight_def)
      with new(2) have "depth + 1 \<le> MAX_DEPTH" by simp
      then have "(k, sessionWeight (url, depth, Returning newLinks)) \<in> weightOrder"
        unfolding k by (auto simp: sessionWeight_def weightOrder_def)
      with D(2) show "\<exists>j\<in>#D. (k, j) \<in> weightOrder" by blast
    qed
  qed (use D(1) in \<open>simp_all add: stateWeight_def new a'\<close>)
  then show ?thesis by (simp add: crawlOrder_iff)
qed

lemma wf_steps: "wf {(s', s). \<exists>e. step v e s = Some s'}"
  by (rule wf_subset[OF wf_crawlOrder]) (auto intro: step_decreases)

text \<open>Until \<open>crawl\<close> has returned, some event can happen; afterwards none.\<close>

lemma progress:
  assumes "crawlInv s" and "coordinator s \<noteq> Done"
  shows "\<exists>e s'. step v e s = Some s'"
proof (cases "coordinator s")
  case Filling
  show ?thesis
  proof (cases "queue s \<noteq> [] \<and> length (activePages s) < MAX_CONCURRENT_PAGES")
    case True
    with Filling have "step v Dispatch s = Some (dispatch s)" by (simp add: step_def)
    then show ?thesis by blast
  next
    case False
    with Filling have "\<exists>s'. step v Await s = Some s'" by (simp add: step_def)
    then show ?thesis by blast
  qed
next
  case (Waiting awaited)
  show ?thesis
  proof (cases "list_ex (settled s) awaited")
    case True
    with Waiting have "step v Resume s = Some (s\<lparr>coordinator := Filling\<rparr>)" by (simp add: step_def)
    then show ?thesis by blast
  next
    case False
    from assms(1) Waiting have "awaited \<noteq> []" by (simp add: crawlInv_def)
    with False have "activePages s \<noteq> []"
      by (cases awaited) (auto simp: settled_def)
    then obtain url d ph al where al: "activePages s = (url, d, ph) # al"
      by (cases "activePages s") auto
    then have m: "map_of (activePages s) url = Some (d, ph)" by simp
    show ?thesis
    proof (cases ph)
      case Extracting
      with m have "\<exists>s'. step v (Extracted url (failedPage [])) s = Some s'" by (simp add: step_def)
      then show ?thesis by blast
    next
      case (Submitting f fs nl)
      with m have "\<exists>s'. step v (Submitted url [] [] (failedPage [])) s = Some s'" by (simp add: step_def)
      then show ?thesis by blast
    next
      case (Returning nl)
      with m have "\<exists>s'. step v (Returned url) s = Some s'" by (simp add: step_def)
      then show ?thesis by blast
    qed
  qed
next
  case Done
  with assms(2) show ?thesis by simp
qed

lemma done_is_final:
  assumes "crawlInv s" and "coordinator s = Done"
  shows "step v e s = None"
proof -
  from assms have "activePages s = []" by (simp add: crawlInv_def)
  with assms(2) show ?thesis
    by (cases e) (simp_all add: step_def)
qed

lemma completes:
  assumes "crawlInv s"
  shows "\<exists>evs s'. run v evs s = Some s' \<and> coordinator s' = Done"
  using wf_crawlOrder assms
proof (induction s rule: wf_induct_rule)
  case (less s)
  show ?case
  proof (cases "coordinator s = Done")
    case True
    then have "run v [] s = Some s \<and> coordinator s = Done" by simp
    then show ?thesis by blast
  next
    case False
    from progress[OF less.prems False] obtain e s1 where e: "step v e s = Some s1" by blast
    from less.IH[OF step_decreases[OF e] crawlInv_step[OF less.prems e]] obtain evs s' where
      "run v evs s1 = Some s'" "coordinator s' = Done" by blast
    with e have "run v (e # evs) s = Some s' \<and> coordinator s' = Done" by simp
    then show ?thesis by blast
  qed
qed

text \<open>
  C5: no sequence of events goes on for ever, from any state and in either version of
  the crawler: with pages that each give a finite list of links the depth bound alone
  ends the crawl, whether the link graph is acyclic or not. And in every state of a run
  from the start URL: as long as \<open>crawl\<close> has not returned some event can happen (no
  deadlock while sessions keep completing), the run can be continued to the state where
  \<open>crawl\<close> has returned, and there the queue is empty, no session is in flight and
  \<open>saveResults\<close> has run exactly once, and not before.
\<close>

theorem C5_crawl_terminates:
  "wf {(s', s). \<exists>e. step v e s = Some s'}
   \<and> (run v evs (initial startUrl) = Some s \<longrightarrow>
        (\<exists>evs' s'. run v evs' s = Some s' \<and> coordinator s' = Done)
        \<and> ((\<forall>e. step v e s = None) \<longleftrightarrow> coordinator s = Done)
        \<and> (coordinator s = Done \<longrightarrow> queue s = [] \<and> activePages s = [] \<and> resultsSaved s = 1)
        \<and> (coordinator s \<noteq> Done \<longrightarrow> resultsSaved s = 0))"
proof (intro conjI impI)
  show "wf {(s', s). \<exists>e. step v e s = Some s'}" by (rule wf_steps)
next
  assume r: "run v evs (initial startUrl) = Some s"
  then have inv: "crawlInv s" by (rule crawlInv_run)
  show "\<exists>evs' s'. run v evs' s = Some s' \<and> coordinator s' = Done"
    using inv by (rule completes)
  show "(\<forall>e. step v e s = None) \<longleftrightarrow> coordinator s = Done"
    using progress[OF inv, of v] done_is_final[OF inv, of v] by (metis option.distinct(1))
  show "queue s = []" "activePages s = []" "resultsSaved s = 1" if "coordinator s = Done"
    using inv that by (simp_all add: crawlInv_def)
  show "resultsSaved s = 0" if "coordinator s \<noteq> Done"
    using inv that by (simp add: crawlInv_def)
qed

theorem C5_crawl_terminates_witness:
  "run Later sampleRun (initial sampleStart) = Some sampleFinal
   \<and> coordinator sampleFinal = Done
   \<and> queue sampleFinal = [] \<and> activePages sampleFinal = [] \<and> resultsSaved sampleFinal = 1
   \<and> step Later Dispatch sampleFinal = None \<and> step Later (Returned sampleStart) sampleFinal = None
   \<and> run Later (samplePrefix @ [sampleSubmit] @ [Returned sampleStart, Resume, Dispatch])
         (initial sampleStart) = Some sampleMid
   \<and> coordinator sampleMid \<noteq> Done \<and> resultsSaved sampleMid = 0
   \<and> (\<exists>e s'. step Later e sampleMid = Some s')
   \<and> (\<exists>evs' s'. run Later evs' sampleMid = Some s' \<and> coordinator s' = Done)"
proof -
  have final: "coordinator sampleFinal = Done" by (simp add: sampleFinal_def)
  have mid: "coordinator sampleMid \<noteq> Done" by (simp add: sampleMid_def)
  from C5_crawl_terminates[of Later sampleRun sampleStart sampleFinal] sample_run final
  have "queue sampleFinal = [] \<and> activePages sampleFinal = [] \<and> resultsSaved sampleFinal = 1
    \<and> step Later Dispatch sampleFinal = None \<and> step Later (Returned sampleStart) sampleFinal = None"
    by simp
  moreover
  from C5_crawl_terminates[of Later "samplePrefix @ [sampleSubmit] @ [Returned sampleStart, Resume, Dispatch]"
      sampleStart sampleMid] sample_mid mid
  have "resultsSaved sampleMid = 0 \<and> (\<exists>e s'. step Later e sampleMid = Some s')
    \<and> (\<exists>evs' s'. run Later evs' sampleMid = Some s' \<and> coordinator s' = Done)"
    by auto
  ultimately show ?thesis using sample_run sample_mid final mid by simp
qed


end
